theory Spec2Isabelle
  imports Main "HOL-Library.FSet" "HOL-Library.Multiset" "HOL-Library.Sublist" "HOL-Library.Word"
begin

section \<open>Expressions\<close>

text \<open>
  The expression kernel (\<^verbatim>\<open>Expr\<close>) is an operator applied to its arguments. The
  operators \<^verbatim>\<open>PathBasedBmc.cc\<close> tests for are constructors of their own, with the
  arity the code reads them at (\<^verbatim>\<open>left()\<close>, \<^verbatim>\<open>right()\<close>, \<^verbatim>\<open>operator[](2)\<close>);
  \<open>AND\<close> and \<open>OR\<close> are n-ary. \<open>BoolConst n\<close> is \<^verbatim>\<open>bind::boolConst(n)\<close>, a
  Boolean constant whose name \<open>n\<close> is itself an expression (a basic block, or a
  \<open>TUPLE\<close> of two control predicates). \<open>OtherOp\<close> stands for every operator of
  another theory (arithmetic, bit-vectors, arrays, comparisons).
\<close>

datatype Expr =
    TRUE
  | FALSE
  | BoolConst Expr
  | NEG Expr
  | AND "Expr list"
  | OR "Expr list"
  | IMPL Expr Expr
  | ITE Expr Expr Expr
  | IFF Expr Expr
  | XOR Expr Expr
  | EQ Expr Expr
  | TUPLE Expr Expr
  | BasicBlock nat
  | OtherOp string "Expr list"

datatype error = AssertionFailed

text \<open>\<^verbatim>\<open>isOp<BoolOp>\<close>: the operators of the Boolean signature.\<close>

fun isBoolOp :: "Expr \<Rightarrow> bool" where
  "isBoolOp TRUE = True"
| "isBoolOp FALSE = True"
| "isBoolOp (NEG _) = True"
| "isBoolOp (AND _) = True"
| "isBoolOp (OR _) = True"
| "isBoolOp (IMPL _ _) = True"
| "isBoolOp (ITE _ _ _) = True"
| "isBoolOp (IFF _ _) = True"
| "isBoolOp (XOR _ _) = True"
| "isBoolOp _ = False"

fun isBoolConst :: "Expr \<Rightarrow> bool" where
  "isBoolConst (BoolConst _) = True"
| "isBoolConst _ = False"

text \<open>
  Modelled from the spec: the constructors \<^verbatim>\<open>op::boolop::lneg\<close>, \<^verbatim>\<open>lor\<close> and
  \<^verbatim>\<open>land\<close> of the expression kernel are not in \<^verbatim>\<open>PathBasedBmc.cc\<close>. The spec
  writes their results as \<open>NEG(a)\<close>, \<open>OR(a, b)\<close>, \<open>AND(a, b)\<close> and, for a list,
  \<open>\<not>(l\<^sub>1 \<and> \<dots> \<and> l\<^sub>k)\<close>; for the list of the single literal \<open>bp(b\<^sub>1)\<close> its third
  scenario gives the blocking clause \<open>\<not>bp(b\<^sub>1)\<close>, so the conjunction of one expression
  is that expression.
\<close>

definition lneg :: "Expr \<Rightarrow> Expr" where
  "lneg e = NEG e"

definition lor :: "Expr \<Rightarrow> Expr \<Rightarrow> Expr" where
  "lor a b = OR [a, b]"

definition land :: "Expr \<Rightarrow> Expr \<Rightarrow> Expr" where
  "land a b = AND [a, b]"

definition land_list :: "Expr list \<Rightarrow> Expr" where
  "land_list es = (case es of [e] \<Rightarrow> e | _ \<Rightarrow> AND es)"

section \<open>The visitor\<close>

text \<open>
  Modelled from the spec: \<^verbatim>\<open>dagVisit\<close> and \<^verbatim>\<open>VisitAction\<close> belong to the expression
  kernel and are not in \<^verbatim>\<open>PathBasedBmc.cc\<close>. A visitor answers, at each node it is
  shown, with one of: keep the node and do not look at its children (\<open>skipKids\<close>);
  visit the children and rebuild the node over the results (\<open>doKids\<close>); replace the
  node (\<open>changeTo\<close>); visit the children, rebuild, and hand the rebuilt node to a
  rewriter (\<open>changeDoKidsRewrite\<close>, the bottom-up rewrite of the spec's pre-NNF
  pass). The name under a Boolean constant is not a child.
\<close>

datatype VisitAction =
    skipKids
  | doKids
  | changeTo Expr
  | changeDoKidsRewrite "Expr \<Rightarrow> error + Expr"

fun kids :: "Expr \<Rightarrow> Expr list" where
  "kids (NEG a) = [a]"
| "kids (AND es) = es"
| "kids (OR es) = es"
| "kids (IMPL a b) = [a, b]"
| "kids (ITE c a b) = [c, a, b]"
| "kids (IFF a b) = [a, b]"
| "kids (XOR a b) = [a, b]"
| "kids (EQ a b) = [a, b]"
| "kids (TUPLE a b) = [a, b]"
| "kids (OtherOp f es) = es"
| "kids _ = []"

fun mapM :: "('a \<Rightarrow> error + 'b) \<Rightarrow> 'a list \<Rightarrow> error + 'b list" where
  "mapM f [] = Inr []"
| "mapM f (x # xs) =
     (case f x of
        Inl err \<Rightarrow> Inl err
      | Inr y \<Rightarrow> (case mapM f xs of Inl err \<Rightarrow> Inl err | Inr ys \<Rightarrow> Inr (y # ys)))"

text \<open>The node of \<open>e\<close> over new children; the children are given in the order of \<open>kids\<close>.\<close>

fun rebuild :: "Expr \<Rightarrow> Expr list \<Rightarrow> Expr" where
  "rebuild (NEG _) [a] = NEG a"
| "rebuild (AND _) es = AND es"
| "rebuild (OR _) es = OR es"
| "rebuild (IMPL _ _) [a, b] = IMPL a b"
| "rebuild (ITE _ _ _) [c, a, b] = ITE c a b"
| "rebuild (IFF _ _) [a, b] = IFF a b"
| "rebuild (XOR _ _) [a, b] = XOR a b"
| "rebuild (EQ _ _) [a, b] = EQ a b"
| "rebuild (TUPLE _ _) [a, b] = TUPLE a b"
| "rebuild (OtherOp f _) es = OtherOp f es"
| "rebuild e _ = e"

definition visit_kids :: "(Expr \<Rightarrow> error + Expr) \<Rightarrow> Expr \<Rightarrow> error + Expr" where
  "visit_kids f e =
     (case mapM f (kids e) of Inl err \<Rightarrow> Inl err | Inr ks \<Rightarrow> Inr (rebuild e ks))"

lemma mapM_cong [fundef_cong]:
  "xs = ys \<Longrightarrow> (\<And>x. x \<in> set ys \<Longrightarrow> f x = g x) \<Longrightarrow> mapM f xs = mapM g ys"
  by (induction ys arbitrary: xs) (auto split: sum.splits)

lemma visit_kids_cong [fundef_cong]:
  "e = e' \<Longrightarrow> (\<And>k. k \<in> set (kids e') \<Longrightarrow> f k = g k) \<Longrightarrow> visit_kids f e = visit_kids g e'"
proof -
  assume eq: "e = e'" and k: "\<And>k. k \<in> set (kids e') \<Longrightarrow> f k = g k"
  have "mapM f (kids e') = mapM g (kids e')"
    by (rule mapM_cong) (simp_all add: k)
  then show ?thesis
    by (simp add: visit_kids_def eq)
qed

lemma kids_size: "k \<in> set (kids e) \<Longrightarrow> size k < size e"
  by (cases e) (auto simp: less_Suc_eq_le size_list_estimation')

function dagVisit :: "(Expr \<Rightarrow> VisitAction) \<Rightarrow> Expr \<Rightarrow> error + Expr" where
  "dagVisit v e =
     (case v e of
        skipKids \<Rightarrow> Inr e
      | doKids \<Rightarrow> visit_kids (dagVisit v) e
      | changeTo e' \<Rightarrow> Inr e'
      | changeDoKidsRewrite r \<Rightarrow>
          (case visit_kids (dagVisit v) e of Inl err \<Rightarrow> Inl err | Inr e' \<Rightarrow> r e'))"
  by pat_completeness auto
termination
  by (relation "measure (\<lambda>(v, e). size e)") (auto simp: kids_size)

declare dagVisit.simps [simp del]

section \<open>Boolean abstraction\<close>

text \<open>
  \<^verbatim>\<open>PreNNF::operator()\<close>: a node that is not a Boolean operator, or is none of
  \<open>IMPL\<close>, \<open>ITE\<close>, \<open>IFF\<close> and \<open>XOR\<close>, is returned as it is; \<open>XOR\<close> runs into
  \<^verbatim>\<open>assert(false && "TODO")\<close>.
\<close>

definition PreNNF :: "Expr \<Rightarrow> error + Expr" where
  "PreNNF exp =
     (if \<not> isBoolOp exp then Inr exp
      else case exp of
        XOR l r \<Rightarrow> Inl AssertionFailed
      | IMPL l r \<Rightarrow> Inr (lor (lneg l) r)
      | ITE c e1 e2 \<Rightarrow> Inr (lor (land c e1) (land (lneg c) e2))
      | IFF l r \<Rightarrow> Inr (land (lor (lneg l) r) (lor (lneg r) l))
      | _ \<Rightarrow> Inr exp)"

text \<open>
  Modelled from the spec: the adaptor \<^verbatim>\<open>op::boolop::BS\<close>, which turns a rewriter into
  a visitor, is not in \<^verbatim>\<open>PathBasedBmc.cc\<close>. The spec has the pre-NNF rewrite run
  "bottom-up, on every Boolean node": every node is rebuilt over its rewritten children
  and handed to the rewriter (which leaves the nodes that are not Boolean alone).
\<close>

definition BS :: "(Expr \<Rightarrow> error + Expr) \<Rightarrow> Expr \<Rightarrow> VisitAction" where
  "BS r exp = changeDoKidsRewrite r"

definition pre_nnf :: "Expr \<Rightarrow> error + Expr" where
  "pre_nnf exp = dagVisit (BS PreNNF) exp"

text \<open>
  Modelled from the spec: \<^verbatim>\<open>op::boolop::nnf\<close> is not in \<^verbatim>\<open>PathBasedBmc.cc\<close>. The
  spec: "Standard NNF push negations inward until negations appear only on Boolean
  constants", and its glossary: "negations applied only to atoms". A negation is pushed
  through \<open>NEG\<close>, \<open>AND\<close> and \<open>OR\<close>; every other node is an atom and is left as it is,
  under the negation that reached it. The flag is \<open>True\<close> under an even number of
  negations.
\<close>

fun nnf_pol :: "bool \<Rightarrow> Expr \<Rightarrow> Expr" where
  "nnf_pol p (NEG a) = nnf_pol (\<not> p) a"
| "nnf_pol p (AND es) = (if p then AND (map (nnf_pol p) es) else OR (map (nnf_pol p) es))"
| "nnf_pol p (OR es) = (if p then OR (map (nnf_pol p) es) else AND (map (nnf_pol p) es))"
| "nnf_pol p e = (if p then e else NEG e)"

definition nnf :: "Expr \<Rightarrow> Expr" where
  "nnf exp = nnf_pol True exp"

text \<open>The visitor \<^verbatim>\<open>BA\<close>.\<close>

definition is_pos_bool_lit :: "Expr \<Rightarrow> bool" where
  "is_pos_bool_lit e \<longleftrightarrow> e = TRUE \<or> e = FALSE \<or> isBoolConst e"

definition is_neg_bool_lit :: "Expr \<Rightarrow> bool" where
  "is_neg_bool_lit e = (case e of NEG l \<Rightarrow> is_pos_bool_lit l | _ \<Rightarrow> False)"

definition is_bool_lit :: "Expr \<Rightarrow> bool" where
  "is_bool_lit e \<longleftrightarrow> is_pos_bool_lit e \<or> is_neg_bool_lit e"

definition BA :: "Expr \<Rightarrow> VisitAction" where
  "BA exp =
     (if is_pos_bool_lit exp then skipKids
      else case exp of
        NEG l \<Rightarrow> if is_pos_bool_lit l then doKids else changeTo TRUE
      | AND _ \<Rightarrow> doKids
      | OR _ \<Rightarrow> doKids
      | EQ l r \<Rightarrow> if is_bool_lit l \<and> is_bool_lit r then doKids else changeTo TRUE
      | _ \<Rightarrow> changeTo TRUE)"

text \<open>\<^verbatim>\<open>bool_abstraction(Expr)\<close>: pre-NNF, NNF, then the visitor \<open>BA\<close>.\<close>

definition bool_abstraction :: "Expr \<Rightarrow> error + Expr" where
  "bool_abstraction exp =
     (case pre_nnf exp of
        Inl err \<Rightarrow> Inl err
      | Inr exp1 \<Rightarrow> dagVisit BA (nnf exp1))"

text \<open>
  \<^verbatim>\<open>bool_abstraction(ExprVector& side, ExprVector& abs_side)\<close>: the loop appends the
  abstraction of each clause to \<open>abs_side\<close>; then \<^verbatim>\<open>remove_if\<close> and \<^verbatim>\<open>erase\<close> take
  every \<open>TRUE\<close> out of \<open>abs_side\<close>.
\<close>

fun push_abstractions :: "Expr list \<Rightarrow> Expr list \<Rightarrow> error + Expr list" where
  "push_abstractions [] abs_side = Inr abs_side"
| "push_abstractions (exp # side) abs_side =
     (case bool_abstraction exp of
        Inl err \<Rightarrow> Inl err
      | Inr bexp \<Rightarrow> push_abstractions side (abs_side @ [bexp]))"

definition bool_abstraction_vec :: "Expr list \<Rightarrow> Expr list \<Rightarrow> error + Expr list" where
  "bool_abstraction_vec side abs_side =
     (case push_abstractions side abs_side of
        Inl err \<Rightarrow> Inl err
      | Inr pushed \<Rightarrow> Inr (filter (\<lambda>e. e \<noteq> TRUE) pushed))"

section \<open>Meaning of expressions\<close>

text \<open>
  A model gives a truth value to every Boolean constant (by its name) and a function to
  every operator of another theory. Values are truth values or elements of another
  sort. An expression holds when its value is the truth value \<open>True\<close>.
\<close>

datatype val = BoolV bool | OtherV nat

record model =
  bconst :: "Expr \<Rightarrow> bool"
  func :: "string \<Rightarrow> val list \<Rightarrow> val"

fun eval :: "model \<Rightarrow> Expr \<Rightarrow> val" where
  "eval M TRUE = BoolV True"
| "eval M FALSE = BoolV False"
| "eval M (BoolConst n) = BoolV (bconst M n)"
| "eval M (NEG a) = BoolV (eval M a \<noteq> BoolV True)"
| "eval M (AND es) = BoolV (list_all (\<lambda>e. eval M e = BoolV True) es)"
| "eval M (OR es) = BoolV (list_ex (\<lambda>e. eval M e = BoolV True) es)"
| "eval M (IMPL a b) = BoolV (eval M a = BoolV True \<longrightarrow> eval M b = BoolV True)"
| "eval M (ITE c a b) = (if eval M c = BoolV True then eval M a else eval M b)"
| "eval M (IFF a b) = BoolV ((eval M a = BoolV True) = (eval M b = BoolV True))"
| "eval M (XOR a b) = BoolV ((eval M a = BoolV True) \<noteq> (eval M b = BoolV True))"
| "eval M (EQ a b) = BoolV (eval M a = eval M b)"
| "eval M (TUPLE a b) = func M ''tuple'' [eval M a, eval M b]"
| "eval M (BasicBlock n) = OtherV n"
| "eval M (OtherOp f es) = func M f (map (eval M) es)"

definition holds :: "model \<Rightarrow> Expr \<Rightarrow> bool" where
  "holds M e \<longleftrightarrow> eval M e = BoolV True"

definition holds_all :: "model \<Rightarrow> Expr list \<Rightarrow> bool" where
  "holds_all M es \<longleftrightarrow> list_all (holds M) es"

fun contains_XOR :: "Expr \<Rightarrow> bool" where
  "contains_XOR (XOR a b) = True"
| "contains_XOR e = list_ex contains_XOR (kids e)"

section \<open>Minimal unsatisfiable cores\<close>

text \<open>
  \<^verbatim>\<open>boost::tribool\<close>. In a condition it counts as true only when it is \<open>TriTrue\<close>,
  and its negation only when it is \<open>TriFalse\<close>.
\<close>

datatype tribool = TriTrue | TriFalse | Indeterminate

text \<open>
  The operators of the Boost library that the engine applies to a \<^verbatim>\<open>tribool\<close>: the
  conversion to \<^verbatim>\<open>bool\<close> of a condition, the disjunction, and the comparison with
  the keyword \<^verbatim>\<open>boost::indeterminate\<close>, whose result is indeterminate whatever the
  value compared.
\<close>

definition tribool_to_bool :: "tribool \<Rightarrow> bool" where
  "tribool_to_bool x \<longleftrightarrow> x = TriTrue"

definition tribool_not :: "tribool \<Rightarrow> tribool" where
  "tribool_not x = (case x of TriTrue \<Rightarrow> TriFalse | TriFalse \<Rightarrow> TriTrue
                    | Indeterminate \<Rightarrow> Indeterminate)"

definition tribool_or :: "tribool \<Rightarrow> tribool \<Rightarrow> tribool" where
  "tribool_or x y =
     (if tribool_to_bool (tribool_not x) \<and> tribool_to_bool (tribool_not y) then TriFalse
      else if tribool_to_bool x \<or> tribool_to_bool y then TriTrue
      else Indeterminate)"

definition tribool_eq_indeterminate :: "tribool \<Rightarrow> tribool" where
  "tribool_eq_indeterminate x = Indeterminate"

text \<open>
  The SMT backend is not in the file. A solver is the function from the list of
  expressions asserted since its last \<^verbatim>\<open>reset()\<close> to the answer of \<^verbatim>\<open>solve()\<close>.
  \<^verbatim>\<open>check\<close> (and \<^verbatim>\<open>check_with_assumptions\<close>, which is the same) resets the solver,
  asserts the assumptions, then the clauses of the range, and solves. The counter of
  solver calls is only printed and is left out.
\<close>

type_synonym solver = "Expr list \<Rightarrow> tribool"

definition check :: "solver \<Rightarrow> Expr list \<Rightarrow> Expr list \<Rightarrow> tribool" where
  "check m_solver clauses assumptions = m_solver (assumptions @ clauses)"

text \<open>
  The loop of \<^verbatim>\<open>naive_muc::run\<close>: \<open>out[i]\<close> is overwritten with the last element and
  the solver is asked about \<open>out\<close> without its last position.
\<close>

function naive_loop :: "solver \<Rightarrow> Expr list \<Rightarrow> Expr list \<Rightarrow> nat \<Rightarrow> error + Expr list" where
  "naive_loop m_solver assumptions out i =
     (if i < length out then
        (let saved = out ! i;
             out1 = out[i := last out]
         in case check m_solver (butlast out1) assumptions of
              TriTrue \<Rightarrow> naive_loop m_solver assumptions (out1[i := saved]) (i + 1)
            | TriFalse \<Rightarrow> naive_loop m_solver assumptions (butlast out1) i
            | Indeterminate \<Rightarrow> Inl AssertionFailed)
      else Inr out)"
  by pat_completeness auto
termination
  by (relation "measure (\<lambda>(m_solver, assumptions, out, i). length out - i)") auto

declare naive_loop.simps [simp del]

definition naive_run :: "solver \<Rightarrow> Expr list \<Rightarrow> Expr list \<Rightarrow> Expr list \<Rightarrow> error + Expr list" where
  "naive_run m_solver f assumptions out =
     (if check m_solver f assumptions = TriTrue then Inl AssertionFailed
      else naive_loop m_solver assumptions (out @ f) 0)"

definition naive_muc :: "solver \<Rightarrow> Expr list \<Rightarrow> Expr list \<Rightarrow> error + Expr list" where
  "naive_muc m_solver f out = naive_run m_solver f [] out"

definition threshold :: nat where
  "threshold = 10"

function run_with_assumptions ::
  "solver \<Rightarrow> Expr list \<Rightarrow> Expr list \<Rightarrow> Expr list \<Rightarrow> error + Expr list" where
  "run_with_assumptions m_solver f assumptions core =
     (if check m_solver f assumptions = TriTrue then Inl AssertionFailed
      else if length f \<le> threshold then
        (if length f = 0 then Inr core
         else if length f = 1 then Inr (core @ f)
         else case naive_run m_solver f assumptions [] of
                Inl err \<Rightarrow> Inl err
              | Inr small_core \<Rightarrow> Inr (core @ small_core))
      else
        (let A = take (length f div 2) f;
             B = drop (length f div 2) f
         in case check m_solver A assumptions of
              TriFalse \<Rightarrow> run_with_assumptions m_solver A assumptions core
            | Indeterminate \<Rightarrow> Inl AssertionFailed
            | TriTrue \<Rightarrow>
                (case check m_solver B assumptions of
                   TriFalse \<Rightarrow> run_with_assumptions m_solver B assumptions core
                 | Indeterminate \<Rightarrow> Inl AssertionFailed
                 | TriTrue \<Rightarrow>
                     (case run_with_assumptions m_solver A (assumptions @ B) core of
                        Inl err \<Rightarrow> Inl err
                      | Inr core1 \<Rightarrow>
                          run_with_assumptions m_solver B (assumptions @ core1) core1))))"
  by pat_completeness auto
termination
  by (relation "measure (\<lambda>(m_solver, f, assumptions, core). length f)")
    (auto simp: threshold_def)

declare run_with_assumptions.simps [simp del]

definition binary_search_muc :: "solver \<Rightarrow> Expr list \<Rightarrow> Expr list \<Rightarrow> error + Expr list" where
  "binary_search_muc m_solver f out = run_with_assumptions m_solver f [] out"

section \<open>Edges and sets of expressions\<close>

text \<open>
  \<^verbatim>\<open>isTuple\<close> and \<^verbatim>\<open>getTuple\<close>: a Boolean constant whose name is a \<open>TUPLE\<close>.
  \<^verbatim>\<open>getTuple\<close> asserts \<^verbatim>\<open>isTuple\<close>.
\<close>

fun isTuple :: "Expr \<Rightarrow> bool" where
  "isTuple (BoolConst (TUPLE src dst)) = True"
| "isTuple _ = False"

fun getTuple :: "Expr \<Rightarrow> error + Expr \<times> Expr" where
  "getTuple (BoolConst (TUPLE src dst)) = Inr (src, dst)"
| "getTuple _ = Inl AssertionFailed"

text \<open>
  \<^verbatim>\<open>lessExpr\<close>: expressions that are not tuples come before tuples; otherwise the
  order of the expression kernel, which is not in the file and is the parameter
  \<open>expr_less\<close>.
\<close>

definition lessExpr :: "(Expr \<Rightarrow> Expr \<Rightarrow> bool) \<Rightarrow> Expr \<Rightarrow> Expr \<Rightarrow> bool" where
  "lessExpr expr_less e1 e2 =
     (if \<not> isTuple e1 \<and> isTuple e2 then True
      else if isTuple e1 \<and> \<not> isTuple e2 then False
      else expr_less e1 e2)"

text \<open>
  A \<^verbatim>\<open>std::set\<close> with a comparison is kept as the list of its elements in the order
  of the comparison. \<^verbatim>\<open>insert\<close> puts the element at its place, unless an element
  that is neither before nor after it is already there. \<^verbatim>\<open>std::sort\<close> followed by
  \<^verbatim>\<open>std::unique\<close> gives the same list as inserting every element into an empty set.
\<close>

fun set_insert :: "('a \<Rightarrow> 'a \<Rightarrow> bool) \<Rightarrow> 'a \<Rightarrow> 'a list \<Rightarrow> 'a list" where
  "set_insert lt x [] = [x]"
| "set_insert lt x (y # ys) =
     (if lt x y then x # y # ys
      else if lt y x then y # set_insert lt x ys
      else y # ys)"

definition sort_unique :: "('a \<Rightarrow> 'a \<Rightarrow> bool) \<Rightarrow> 'a list \<Rightarrow> 'a list" where
  "sort_unique lt xs = foldl (\<lambda>acc x. set_insert lt x acc) [] xs"

text \<open>
  \<^verbatim>\<open>isCriticalEdge\<close>. Both loops look for a neighbour other than the given block and
  stop at the first. Basic blocks are numbered; \<open>succs\<close> and \<open>preds\<close> are the CFG's.
\<close>

fun other_than :: "nat list \<Rightarrow> nat \<Rightarrow> bool" where
  "other_than [] b = False"
| "other_than (s # ss) b = (if s \<noteq> b then True else other_than ss b)"

definition isCriticalEdge :: "(nat \<Rightarrow> nat list) \<Rightarrow> (nat \<Rightarrow> nat list) \<Rightarrow> nat \<Rightarrow> nat \<Rightarrow> bool" where
  "isCriticalEdge succs preds src dst =
     (let not_only_leaving = other_than (succs src) dst;
          not_only_entering = other_than (preds dst) src
      in not_only_leaving \<and> not_only_entering)"

section \<open>The engine\<close>

text \<open>
  A statement of the abstract interpreter's CFG, as far as the refiner reads it: its
  kind, its parent (a basic block or an edge), and, when the left-hand side of an
  assignment is a PHI node, the block of that PHI node.
\<close>

datatype stmt_kind =
    bin_op | int_cast | select | bool_bin_op | bool_assign_cst
  | arr_write | arr_read | arr_assume | arr_assign
  | assume_stmt | bool_assume | assign | bool_assign_var
  | other_stmt

datatype parent = InBlock nat | OnEdge nat nat

record statement_wrapper =
  m_s :: stmt_kind
  m_parent :: parent
  lhs_phi_parent :: "nat option"

record SymStore =
  store_eval :: "Expr \<Rightarrow> Expr"
  isDefined :: "Expr \<Rightarrow> bool"

text \<open>
  What the engine calls and the file does not hold: the order of the expression kernel,
  the SMT backend (\<open>smt_solve\<close> answers for a context that holds the given
  assertions, \<open>smt_getModel\<close> gives its model), the VC generator (\<open>encode_side\<close>,
  \<open>symb\<close>, \<open>states\<close>, \<open>get_model_implicant\<close>), the backend's own unsat core, the
  trace reconstructor, the abstract interpreter and the CFG.
\<close>

record 'm collaborators =
  expr_less :: "Expr \<Rightarrow> Expr \<Rightarrow> bool"
  smt_solve :: "Expr list \<Rightarrow> tribool"
  smt_getModel :: "Expr list \<Rightarrow> 'm"
  encode_side :: "Expr list"
  symb :: "nat \<Rightarrow> Expr"
  states :: "SymStore list"
  get_model_implicant :: "Expr list \<Rightarrow> 'm \<Rightarrow> Expr list \<times> (Expr \<Rightarrow> Expr option)"
  unsat_core :: "Expr list \<Rightarrow> Expr list"
  UseCrab :: bool
  trace_blocks :: "'m \<Rightarrow> nat list"
  path_analyze :: "nat list \<Rightarrow> bool \<times> statement_wrapper list"
  succs :: "nat \<Rightarrow> nat list"
  preds :: "nat \<Rightarrow> nat list"

text \<open>
  The engine's members. \<open>m_smt_solver\<close> is the list of assertions of the primary
  solver. The auxiliary solver is reset at the start of every refinement, so nothing of
  it is carried from one call to the next. \<open>errs\<close> is the error stream.
\<close>

record 'm engine =
  m_side :: "Expr list"
  m_smt_solver :: "Expr list"
  m_result :: tribool
  m_blocking_clauses :: "Expr fset"
  m_active_bool_lits :: "Expr list"
  m_model :: "'m option"
  errs :: "string list"

subsection \<open>Refinement by abstract interpretation\<close>

text \<open>
  The edge predicate, built the same way for an assume on an edge and for a PHI
  assignment: a Boolean constant named by the tuple when the edge is critical, the
  conjunction of the two control predicates otherwise. The source block's predicate and
  the edge predicate are inserted into the local set \<open>active_bool_lits\<close>, a
  \<^verbatim>\<open>std::set<Expr, lessExpr>\<close>.
\<close>

definition insert_edge_lits ::
  "'m collaborators \<Rightarrow> nat \<Rightarrow> nat \<Rightarrow> Expr list \<Rightarrow> Expr list" where
  "insert_edge_lits X src_BB dst_BB active_bool_lits =
     (let src = symb X src_BB;
          dst = symb X dst_BB;
          edge = (if isCriticalEdge (succs X) (preds X) src_BB dst_BB
                  then BoolConst (TUPLE src dst)
                  else AND [src, dst])
      in set_insert (lessExpr (expr_less X)) edge
           (set_insert (lessExpr (expr_less X)) src active_bool_lits))"

text \<open>
  One turn of the loop over the relevant statements. \<open>Inr None\<close> is the way out through
  the sanity check ("this should not happen"), where the function returns \<open>true\<close>;
  \<open>Inl\<close> is a failed assertion. \<^verbatim>\<open>get_basic_block()\<close> is null for a parent that is an
  edge.
\<close>

definition add_active_lits ::
  "'m collaborators \<Rightarrow> statement_wrapper \<Rightarrow> Expr list \<Rightarrow> error + Expr list option" where
  "add_active_lits X s active_bool_lits =
     (if m_s s \<in> {bin_op, int_cast, select, bool_bin_op, bool_assign_cst,
                   arr_write, arr_read, arr_assume, arr_assign} then
        (case m_parent s of
           InBlock BB \<Rightarrow>
             Inr (Some (set_insert (lessExpr (expr_less X)) (symb X BB) active_bool_lits))
         | OnEdge _ _ \<Rightarrow> Inl AssertionFailed)
      else if m_s s = assume_stmt \<or> m_s s = bool_assume then
        (case m_parent s of
           OnEdge p_first p_second \<Rightarrow>
             Inr (Some (insert_edge_lits X p_first p_second active_bool_lits))
         | InBlock BB \<Rightarrow>
             if m_s s = bool_assume
             then Inr (Some (set_insert (lessExpr (expr_less X)) (symb X BB) active_bool_lits))
             else Inl AssertionFailed)
      else if m_s s = assign \<or> m_s s = bool_assign_var then
        (case lhs_phi_parent s of
           Some dst_BB \<Rightarrow>
             (let src_BB = (case m_parent s of InBlock b \<Rightarrow> b | OnEdge p_first _ \<Rightarrow> p_first)
              in Inr (Some (insert_edge_lits X src_BB dst_BB active_bool_lits)))
         | None \<Rightarrow> Inr None)
      else Inr None)"

fun collect_active_lits ::
  "'m collaborators \<Rightarrow> statement_wrapper list \<Rightarrow> Expr list \<Rightarrow> error + Expr list option" where
  "collect_active_lits X [] active_bool_lits = Inr (Some active_bool_lits)"
| "collect_active_lits X (s # relevant_stmts) active_bool_lits =
     (case add_active_lits X s active_bool_lits of
        Inl err \<Rightarrow> Inl err
      | Inr None \<Rightarrow> Inr None
      | Inr (Some active') \<Rightarrow> collect_active_lits X relevant_stmts active')"

text \<open>
  The search for the store that defines \<open>e\<close>: the first store whose evaluation changes
  \<open>e\<close>, or, for a tuple, the first that defines both components.
\<close>

fun eval_in_states :: "SymStore list \<Rightarrow> Expr \<Rightarrow> Expr option" where
  "eval_in_states [] e = None"
| "eval_in_states (st # sts) e =
     (let v = store_eval st e
      in if v \<noteq> e then Some v
         else case getTuple e of
                Inr (t_first, t_second) \<Rightarrow>
                  if isDefined st t_first \<and> isDefined st t_second
                  then Some (BoolConst (TUPLE (store_eval st t_first) (store_eval st t_second)))
                  else eval_in_states sts e
              | Inl _ \<Rightarrow> eval_in_states sts e)"

fun eval_active_lits :: "SymStore list \<Rightarrow> Expr list \<Rightarrow> Expr list \<Rightarrow> bool \<times> Expr list" where
  "eval_active_lits sts [] lits = (True, lits)"
| "eval_active_lits sts (e # es) lits =
     (case eval_in_states sts e of
        Some v \<Rightarrow> eval_active_lits sts es (lits @ [v])
      | None \<Rightarrow> (False, lits))"

definition path_encoding_and_solve_with_ai ::
  "'m collaborators \<Rightarrow> nat list \<Rightarrow> 'm engine \<Rightarrow> error + bool \<times> 'm engine" where
  "path_encoding_and_solve_with_ai X trace s =
     (let (res, relevant_stmts) = path_analyze X trace
      in if \<not> res then
           (case collect_active_lits X relevant_stmts [] of
              Inl err \<Rightarrow> Inl err
            | Inr None \<Rightarrow> Inr (True, s)
            | Inr (Some active_bool_lits) \<Rightarrow>
                (case eval_active_lits (states X) active_bool_lits [] of
                   (True, lits) \<Rightarrow> Inr (res, s\<lparr>m_active_bool_lits := lits\<rparr>)
                 | (False, lits) \<Rightarrow>
                     Inr (True, s\<lparr>m_active_bool_lits := lits,
                       errs := errs s @
                         [''Path-based BMC ERROR: cannot produce an unsat core from Crab'']\<rparr>)))
         else Inr (res, s))"

subsection \<open>Refinement by SMT\<close>

datatype muc_method_t = MUC_NAIVE | MUC_ASSUMPTIONS | MUC_BINARY_SEARCH

definition muc_run :: "'m collaborators \<Rightarrow> muc_method_t \<Rightarrow> Expr list \<Rightarrow> error + Expr list" where
  "muc_run X muc_method path_formula =
     (case muc_method of
        MUC_ASSUMPTIONS \<Rightarrow> Inr (unsat_core X path_formula)
      | MUC_NAIVE \<Rightarrow> naive_muc (smt_solve X) path_formula []
      | MUC_BINARY_SEARCH \<Rightarrow> binary_search_muc (smt_solve X) path_formula [])"

definition path_encoding_and_solve_with_smt ::
  "'m collaborators \<Rightarrow> 'm \<Rightarrow> 'm engine \<Rightarrow> error + tribool \<times> 'm engine" where
  "path_encoding_and_solve_with_smt X zmodel s =
     (let (implicant, active_bool_map) = get_model_implicant X (m_side s) zmodel;
          path_formula = sort_unique (expr_less X) implicant;
          res = smt_solve X path_formula
      in case res of
           TriFalse \<Rightarrow>
             (case muc_run X MUC_ASSUMPTIONS path_formula of
                Inl err \<Rightarrow> Inl err
              | Inr core \<Rightarrow>
                  (let active_bool_set =
                         foldl (\<lambda>acc e. case active_bool_map e of
                                          Some lit \<Rightarrow> set_insert (expr_less X) lit acc
                                        | None \<Rightarrow> acc) [] core
                   in Inr (res, s\<lparr>m_active_bool_lits := active_bool_set\<rparr>)))
         | TriTrue \<Rightarrow> Inr (res, s\<lparr>m_model := Some (smt_getModel X path_formula)\<rparr>)
         | Indeterminate \<Rightarrow> Inr (res, s))"

subsection \<open>Blocking clauses and the main loop\<close>

definition add_blocking_clauses :: "'m engine \<Rightarrow> bool \<times> 'm engine" where
  "add_blocking_clauses s =
     (let (bc, s1) =
            (if m_active_bool_lits s = []
             then (FALSE, s\<lparr>errs := errs s @
                     [''No found active boolean literals. Trivially unsat ... '']\<rparr>)
             else (lneg (land_list (m_active_bool_lits s)), s));
          s2 = s1\<lparr>m_smt_solver := m_smt_solver s1 @ [bc]\<rparr>;
          res_second = (bc |\<notin>| m_blocking_clauses s2)
      in (res_second, s2\<lparr>m_blocking_clauses := finsert bc (m_blocking_clauses s2)\<rparr>))"

text \<open>
  One turn of the main loop, after the primary solver has answered \<open>true\<close>: the loop
  goes on with a new state, or \<^verbatim>\<open>solve()\<close> returns, or an assertion fails.

  The test after the SMT refinement is \<^verbatim>\<open>res == boost::indeterminate || res\<close>. It
  holds only when \<open>res\<close> is \<open>true\<close>: when the refinement answers \<open>indeterminate\<close>,
  \<^verbatim>\<open>add_blocking_clauses()\<close> is called as it is when the refinement answers \<open>false\<close>,
  with the active literals that an earlier turn has left.
\<close>

datatype 'a outcome = Continue 'a | Return tribool 'a | Abort error

definition smt_turn :: "'m collaborators \<Rightarrow> 'm \<Rightarrow> 'm engine \<Rightarrow> 'm engine outcome" where
  "smt_turn X zmodel s =
     (case path_encoding_and_solve_with_smt X zmodel s of
        Inl err \<Rightarrow> Abort err
      | Inr (res, s1) \<Rightarrow>
          if tribool_to_bool (tribool_or (tribool_eq_indeterminate res) res) then Return res s1
          else (let (ok, s2) = add_blocking_clauses s1
                in if \<not> ok
                   then Return Indeterminate (s2\<lparr>errs := errs s2 @
                          [''Path-based BMC ERROR: same blocking clause again 902'']\<rparr>)
                   else Continue s2))"

definition loop_turn :: "'m collaborators \<Rightarrow> 'm engine \<Rightarrow> 'm engine outcome" where
  "loop_turn X s =
     (let zmodel = smt_getModel X (m_smt_solver s)
      in if UseCrab X then
           (case path_encoding_and_solve_with_ai X (trace_blocks X zmodel) s of
              Inl err \<Rightarrow> Abort err
            | Inr (res, s1) \<Rightarrow>
                if \<not> res then
                  (let (ok, s2) = add_blocking_clauses s1
                   in if ok then Continue s2
                      else Return Indeterminate (s2\<lparr>errs := errs s2 @
                             [''Path-based BMC ERROR: same blocking clause again 883'']\<rparr>))
                else smt_turn X zmodel s1)
         else smt_turn X zmodel s)"

text \<open>
  The main loop. It may run forever (nothing in the file bounds the models the primary
  solver can find), so it is given fuel; \<open>None\<close> is the loop still running when the fuel
  is gone. The counter \<open>iters\<close> is an \<^verbatim>\<open>unsigned\<close>, taken as 32 bits wide: it wraps.
\<close>

fun main_loop ::
  "nat \<Rightarrow> 'm collaborators \<Rightarrow> 32 word \<Rightarrow> 'm engine \<Rightarrow> (error + tribool \<times> 'm engine) option" where
  "main_loop 0 X iters s = None"
| "main_loop (Suc fuel) X iters s =
     (let s1 = s\<lparr>m_result := smt_solve X (m_smt_solver s)\<rparr>
      in if m_result s1 = TriTrue then
           (case loop_turn X s1 of
              Continue s2 \<Rightarrow> main_loop fuel X (iters + 1) s2
            | Return res s2 \<Rightarrow> Some (Inr (res, s2))
            | Abort err \<Rightarrow> Some (Inl err))
         else Some (Inr (m_result s1,
                if iters = 0
                then s1\<lparr>errs := errs s1 @
                  [''Program is trivially unsat: initial boolean abstraction was enough.'']\<rparr>
                else s1)))"

text \<open>
  \<^verbatim>\<open>solve()\<close>: the precise encoding is taken from the VC generator and removed from
  the primary solver, its Boolean abstraction is asserted, and the main loop runs.
\<close>

definition solve :: "nat \<Rightarrow> 'm collaborators \<Rightarrow> 'm engine \<Rightarrow> (error + tribool \<times> 'm engine) option" where
  "solve fuel X s =
     (let s1 = s\<lparr>m_side := encode_side X, m_smt_solver := []\<rparr>
      in case bool_abstraction_vec (m_side s1) [] of
           Inl err \<Rightarrow> Some (Inl err)
         | Inr abs_side \<Rightarrow> main_loop fuel X 0 (s1\<lparr>m_smt_solver := abs_side\<rparr>))"

text \<open>The engine as its constructor leaves it.\<close>

definition new_engine :: "'m engine" where
  "new_engine = \<lparr>m_side = [], m_smt_solver = [], m_result = Indeterminate,
     m_blocking_clauses = {||}, m_active_bool_lits = [], m_model = None, errs = []\<rparr>"

section \<open>Notions used to state the properties\<close>

text \<open>
  The shape of an abstraction: Boolean literals, \<open>AND\<close> and \<open>OR\<close> over such
  expressions, and equalities between Boolean literals.
\<close>

fun is_skeleton :: "Expr \<Rightarrow> bool" where
  "is_skeleton TRUE = True"
| "is_skeleton FALSE = True"
| "is_skeleton (BoolConst n) = True"
| "is_skeleton (NEG a) = is_pos_bool_lit a"
| "is_skeleton (AND es) = list_all is_skeleton es"
| "is_skeleton (OR es) = list_all is_skeleton es"
| "is_skeleton (EQ a b) = (is_bool_lit a \<and> is_bool_lit b)"
| "is_skeleton _ = False"

text \<open>
  The skeleton of an expression, in the words of the spec: a positive Boolean literal
  and the negation of one are kept, \<open>AND\<close> and \<open>OR\<close> are kept over the skeletons of their
  children, an equality between Boolean literals is kept, and everything else is
  replaced with \<open>TRUE\<close>.
\<close>

fun skeleton_of :: "Expr \<Rightarrow> Expr" where
  "skeleton_of TRUE = TRUE"
| "skeleton_of FALSE = FALSE"
| "skeleton_of (BoolConst n) = BoolConst n"
| "skeleton_of (NEG a) = (if is_pos_bool_lit a then NEG a else TRUE)"
| "skeleton_of (AND es) = AND (map skeleton_of es)"
| "skeleton_of (OR es) = OR (map skeleton_of es)"
| "skeleton_of (EQ a b) = (if is_bool_lit a \<and> is_bool_lit b then EQ a b else TRUE)"
| "skeleton_of _ = TRUE"

text \<open>
  What the claims about cores ask of the solver: it decides the satisfiability of the
  conjunction of the clauses it holds. It never answers \<open>indeterminate\<close>; when a set of
  clauses is satisfiable, so is each of its subsets (so the answer depends on the set of
  clauses only); and the empty conjunction is satisfiable.
\<close>

definition decision_procedure :: "solver \<Rightarrow> bool" where
  "decision_procedure m_solver \<longleftrightarrow>
     (\<forall>es. m_solver es \<noteq> Indeterminate) \<and>
     (\<forall>xs ys. set xs \<subseteq> set ys \<longrightarrow> m_solver ys = TriTrue \<longrightarrow> m_solver xs = TriTrue) \<and>
     m_solver [] = TriTrue"

text \<open>The list without its element at position \<open>k\<close>.\<close>

definition remove_nth :: "nat \<Rightarrow> 'a list \<Rightarrow> 'a list" where
  "remove_nth k xs = take k xs @ drop (Suc k) xs"

text \<open>
  \<open>refuted_by X s s1\<close>: in the turn of the main loop that starts in state \<open>s\<close>, the
  refinement reports an infeasible path and leaves the engine in state \<open>s1\<close>, from
  which \<^verbatim>\<open>add_blocking_clauses()\<close> is called. Either the abstract interpreter is
  enabled and answers \<open>false\<close>, or it is disabled or answers \<open>true\<close> and the SMT
  refinement answers \<open>false\<close>.
\<close>

definition refuted_by :: "'m collaborators \<Rightarrow> 'm engine \<Rightarrow> 'm engine \<Rightarrow> bool" where
  "refuted_by X s s1 \<longleftrightarrow>
     (let zmodel = smt_getModel X (m_smt_solver s) in
      if UseCrab X then
        (case path_encoding_and_solve_with_ai X (trace_blocks X zmodel) s of
           Inl err \<Rightarrow> False
         | Inr (res, s0) \<Rightarrow>
             if \<not> res then s1 = s0
             else path_encoding_and_solve_with_smt X zmodel s0 = Inr (TriFalse, s1))
      else path_encoding_and_solve_with_smt X zmodel s = Inr (TriFalse, s1))"

text \<open>
  \<open>unknown_by X s s1\<close>: in the turn of the main loop that starts in state \<open>s\<close>, the
  abstract interpreter is disabled or answers \<open>true\<close>, and the SMT refinement answers
  \<open>indeterminate\<close> and leaves the engine in state \<open>s1\<close>. From there too
  \<^verbatim>\<open>add_blocking_clauses()\<close> is called.
\<close>

definition unknown_by :: "'m collaborators \<Rightarrow> 'm engine \<Rightarrow> 'm engine \<Rightarrow> bool" where
  "unknown_by X s s1 \<longleftrightarrow>
     (let zmodel = smt_getModel X (m_smt_solver s) in
      if UseCrab X then
        (case path_encoding_and_solve_with_ai X (trace_blocks X zmodel) s of
           Inl err \<Rightarrow> False
         | Inr (res, s0) \<Rightarrow>
             res \<and> path_encoding_and_solve_with_smt X zmodel s0 = Inr (Indeterminate, s1))
      else path_encoding_and_solve_with_smt X zmodel s = Inr (Indeterminate, s1))"

text \<open>The clause \<^verbatim>\<open>add_blocking_clauses()\<close> builds from the active literals.\<close>

definition blocking_clause :: "Expr list \<Rightarrow> Expr" where
  "blocking_clause lits = (if lits = [] then FALSE else lneg (land_list lits))"

text \<open>
  \<open>at_loop_head X s0 n s\<close>: \<^verbatim>\<open>solve()\<close>, called on the engine \<open>s0\<close>, is at the head
  of its main loop in state \<open>s\<close> after \<open>n\<close> turns.
\<close>

inductive at_loop_head :: "'m collaborators \<Rightarrow> 'm engine \<Rightarrow> nat \<Rightarrow> 'm engine \<Rightarrow> bool"
  for X :: "'m collaborators" and s0 :: "'m engine" where
  start:
    "bool_abstraction_vec (encode_side X) [] = Inr abs_side \<Longrightarrow>
     at_loop_head X s0 0 (s0\<lparr>m_side := encode_side X, m_smt_solver := abs_side\<rparr>)"
| turn:
    "at_loop_head X s0 n s \<Longrightarrow> smt_solve X (m_smt_solver s) = TriTrue \<Longrightarrow>
     loop_turn X (s\<lparr>m_result := TriTrue\<rparr>) = Continue s' \<Longrightarrow>
     at_loop_head X s0 (n + 1) s'"

section \<open>Example programs\<close>

text \<open>
  A program of a single block whose only clause is an unsatisfiable constraint of
  another theory. The solver finds the empty context satisfiable and every other
  context it is asked about unsatisfiable; the implicant is the side formula, no clause
  of which is guarded by a control predicate.
\<close>

definition single_block_program :: "unit collaborators" where
  "single_block_program =
     \<lparr>expr_less = (\<lambda>a b. size a < size b),
      smt_solve = (\<lambda>es. if es = [] then TriTrue else TriFalse),
      smt_getModel = (\<lambda>es. ()),
      encode_side = [OtherOp ''lt'' [OtherOp ''x'' [], OtherOp ''x'' []]],
      symb = (\<lambda>b. BoolConst (BasicBlock b)),
      states = [],
      get_model_implicant = (\<lambda>side zmodel. (side, (\<lambda>e. None))),
      unsat_core = (\<lambda>f. f),
      UseCrab = False,
      trace_blocks = (\<lambda>zmodel. []),
      path_analyze = (\<lambda>blocks. (True, [])),
      succs = (\<lambda>b. []),
      preds = (\<lambda>b. [])\<rparr>"

text \<open>
  A program of one block whose unsatisfiable constraint is reported under the control
  predicate of a block that is not on the path, so that the blocking clause does not
  exclude the model it was built from. \<open>mislabelled_head0\<close> and \<open>mislabelled_head1\<close>
  are the engine at the head of the main loop before the first and the second turn.
\<close>

definition mislabelled_program :: "unit collaborators" where
  "mislabelled_program =
     \<lparr>expr_less = (\<lambda>a b. size a < size b),
      smt_solve = (\<lambda>es. if OtherOp ''lt'' [OtherOp ''x'' [], OtherOp ''x'' []] \<in> set es \<or>
                            FALSE \<in> set es then TriFalse else TriTrue),
      smt_getModel = (\<lambda>es. ()),
      encode_side = [BoolConst (BasicBlock 0), OtherOp ''lt'' [OtherOp ''x'' [], OtherOp ''x'' []]],
      symb = (\<lambda>b. BoolConst (BasicBlock b)),
      states = [],
      get_model_implicant = (\<lambda>side zmodel. (side,
         (\<lambda>e. if e = OtherOp ''lt'' [OtherOp ''x'' [], OtherOp ''x'' []]
              then Some (BoolConst (BasicBlock 1)) else None))),
      unsat_core = filter (\<lambda>e. e = OtherOp ''lt'' [OtherOp ''x'' [], OtherOp ''x'' []]),
      UseCrab = False,
      trace_blocks = (\<lambda>zmodel. []),
      path_analyze = (\<lambda>blocks. (True, [])),
      succs = (\<lambda>b. []),
      preds = (\<lambda>b. [])\<rparr>"

definition mislabelled_head0 :: "unit engine" where
  "mislabelled_head0 =
     new_engine\<lparr>m_side := encode_side mislabelled_program,
       m_smt_solver := [BoolConst (BasicBlock 0)]\<rparr>"

definition mislabelled_head1 :: "unit engine" where
  "mislabelled_head1 =
     mislabelled_head0\<lparr>m_result := TriTrue,
       m_active_bool_lits := [BoolConst (BasicBlock 1)],
       m_smt_solver := [BoolConst (BasicBlock 0), NEG (BoolConst (BasicBlock 1))],
       m_blocking_clauses := {|NEG (BoolConst (BasicBlock 1))|}\<rparr>"

text \<open>
  A program of a single block whose only clause is a constraint of another theory that
  the solver cannot decide: it answers \<open>indeterminate\<close> for every context that is
  neither empty nor holds the clause \<open>FALSE\<close>.
\<close>

definition undecided_program :: "unit collaborators" where
  "undecided_program =
     \<lparr>expr_less = (\<lambda>a b. size a < size b),
      smt_solve = (\<lambda>es. if FALSE \<in> set es then TriFalse
                         else if es = [] then TriTrue else Indeterminate),
      smt_getModel = (\<lambda>es. ()),
      encode_side = [OtherOp ''lt'' [OtherOp ''x'' [], OtherOp ''y'' []]],
      symb = (\<lambda>b. BoolConst (BasicBlock b)),
      states = [],
      get_model_implicant = (\<lambda>side zmodel. (side, (\<lambda>e. None))),
      unsat_core = (\<lambda>f. f),
      UseCrab = False,
      trace_blocks = (\<lambda>zmodel. []),
      path_analyze = (\<lambda>blocks. (True, [])),
      succs = (\<lambda>b. []),
      preds = (\<lambda>b. [])\<rparr>"


text \<open>
  A solver for which a set of clauses is unsatisfiable exactly when it holds both the
  control predicate of block 1 and its negation.
\<close>

definition contradiction_solver :: solver where
  "contradiction_solver es =
     (if BoolConst (BasicBlock 1) \<in> set es \<and> NEG (BoolConst (BasicBlock 1)) \<in> set es
      then TriFalse else TriTrue)"

section \<open>Properties of the Boolean abstraction\<close>

lemma PreNNF_simps [simp]:
  "PreNNF (XOR l r) = Inl AssertionFailed"
  "PreNNF (IMPL l r) = Inr (lor (lneg l) r)"
  "PreNNF (ITE c e1 e2) = Inr (lor (land c e1) (land (lneg c) e2))"
  "PreNNF (IFF l r) = Inr (land (lor (lneg l) r) (lor (lneg r) l))"
  "PreNNF TRUE = Inr TRUE"
  "PreNNF FALSE = Inr FALSE"
  "PreNNF (BoolConst n) = Inr (BoolConst n)"
  "PreNNF (NEG a) = Inr (NEG a)"
  "PreNNF (AND es) = Inr (AND es)"
  "PreNNF (OR es) = Inr (OR es)"
  "PreNNF (EQ a b) = Inr (EQ a b)"
  "PreNNF (TUPLE a b) = Inr (TUPLE a b)"
  "PreNNF (BasicBlock k) = Inr (BasicBlock k)"
  "PreNNF (OtherOp f es) = Inr (OtherOp f es)"
  by (simp_all add: PreNNF_def)

lemma mapM_total:
  "(\<And>x. x \<in> set xs \<Longrightarrow> \<exists>y. f x = Inr y) \<Longrightarrow> mapM f xs = Inr (map (\<lambda>x. projr (f x)) xs)"
proof (induction xs)
  case Nil
  then show ?case by simp
next
  case (Cons x xs)
  from Cons.prems obtain y where y: "f x = Inr y" by auto
  have "mapM f xs = Inr (map (\<lambda>x. projr (f x)) xs)"
    by (rule Cons.IH) (simp add: Cons.prems)
  with y show ?case by simp
qed

lemma is_pos_bool_lit_simps [simp]:
  "is_pos_bool_lit TRUE" "is_pos_bool_lit FALSE" "is_pos_bool_lit (BoolConst n)"
  "\<not> is_pos_bool_lit (NEG a)" "\<not> is_pos_bool_lit (AND es)" "\<not> is_pos_bool_lit (OR es)"
  "\<not> is_pos_bool_lit (IMPL a b)" "\<not> is_pos_bool_lit (ITE c a b)" "\<not> is_pos_bool_lit (IFF a b)"
  "\<not> is_pos_bool_lit (XOR a b)" "\<not> is_pos_bool_lit (EQ a b)" "\<not> is_pos_bool_lit (TUPLE a b)"
  "\<not> is_pos_bool_lit (BasicBlock k)" "\<not> is_pos_bool_lit (OtherOp f es)"
  by (simp_all add: is_pos_bool_lit_def)

lemma dagVisit_BA_total: "\<exists>e'. dagVisit BA e = Inr e'"
proof (induction e rule: measure_induct_rule [where f = size])
  case (less e)
  have ks: "mapM (dagVisit BA) (kids e) = Inr (map (\<lambda>x. projr (dagVisit BA x)) (kids e))"
    by (rule mapM_total) (simp add: less kids_size)
  show ?case
    by (subst dagVisit.simps, cases "BA e")
      (simp_all add: visit_kids_def ks BA_def split: if_splits Expr.splits)
qed

lemma visit_kids_BA:
  "visit_kids (dagVisit BA) e = Inr (rebuild e (map (\<lambda>x. projr (dagVisit BA x)) (kids e)))"
proof -
  have "mapM (dagVisit BA) (kids e) = Inr (map (\<lambda>x. projr (dagVisit BA x)) (kids e))"
    by (rule mapM_total) (rule dagVisit_BA_total)
  then show ?thesis by (simp add: visit_kids_def)
qed

lemma dagVisit_BA_pos: "is_pos_bool_lit e \<Longrightarrow> dagVisit BA e = Inr e"
  by (subst dagVisit.simps) (simp add: BA_def)

lemma dagVisit_BA_NEG:
  "dagVisit BA (NEG a) = Inr (if is_pos_bool_lit a then NEG a else TRUE)"
  by (subst dagVisit.simps) (simp add: BA_def visit_kids_BA dagVisit_BA_pos)

lemma dagVisit_BA_lit: "is_bool_lit l \<Longrightarrow> dagVisit BA l = Inr l"
  by (auto simp: is_bool_lit_def is_neg_bool_lit_def dagVisit_BA_pos dagVisit_BA_NEG
      split: Expr.splits)

lemma dagVisit_BA_AND: "dagVisit BA (AND es) = Inr (AND (map (\<lambda>x. projr (dagVisit BA x)) es))"
  by (subst dagVisit.simps) (simp add: BA_def visit_kids_BA)

lemma dagVisit_BA_OR: "dagVisit BA (OR es) = Inr (OR (map (\<lambda>x. projr (dagVisit BA x)) es))"
  by (subst dagVisit.simps) (simp add: BA_def visit_kids_BA)

lemma dagVisit_BA_EQ:
  "dagVisit BA (EQ a b) = Inr (if is_bool_lit a \<and> is_bool_lit b then EQ a b else TRUE)"
  by (subst dagVisit.simps) (simp add: BA_def visit_kids_BA dagVisit_BA_lit)

lemma dagVisit_BA_other:
  "\<not> is_pos_bool_lit e \<Longrightarrow> \<not> is_neg_bool_lit e \<Longrightarrow> (\<forall>es. e \<noteq> AND es) \<Longrightarrow> (\<forall>es. e \<noteq> OR es)
   \<Longrightarrow> (\<forall>a b. e = EQ a b \<longrightarrow> \<not> (is_bool_lit a \<and> is_bool_lit b))
   \<Longrightarrow> dagVisit BA e = Inr TRUE"
  by (cases e)
    (simp_all add: dagVisit_BA_EQ dagVisit_BA_NEG is_neg_bool_lit_def,
      (subst dagVisit.simps, simp add: BA_def)+)

lemma push_abstractions_Inr:
  "push_abstractions side acc = Inr r \<Longrightarrow>
     r = acc @ map (\<lambda>e. projr (bool_abstraction e)) side"
proof (induction side arbitrary: acc)
  case Nil
  then show ?case by simp
next
  case (Cons c side)
  from Cons.prems obtain b where b: "bool_abstraction c = Inr b"
    and rest: "push_abstractions side (acc @ [b]) = Inr r"
    by (auto split: sum.splits)
  from Cons.IH [OF rest] b show ?case by simp
qed

lemma bool_abstraction_vec_Inr:
  "bool_abstraction_vec side acc = Inr r \<Longrightarrow>
     r = filter (\<lambda>e. e \<noteq> TRUE) (acc @ map (\<lambda>e. projr (bool_abstraction e)) side)"
  by (auto simp: bool_abstraction_vec_def split: sum.splits dest: push_abstractions_Inr)

lemma error_eq: "(err :: error) = AssertionFailed"
  by (cases err) simp

lemma visit_kids_simps:
  "visit_kids f TRUE = Inr TRUE"
  "visit_kids f FALSE = Inr FALSE"
  "visit_kids f (BoolConst n) = Inr (BoolConst n)"
  "visit_kids f (BasicBlock k) = Inr (BasicBlock k)"
  "visit_kids f (NEG a) = (case f a of Inl err \<Rightarrow> Inl err | Inr a' \<Rightarrow> Inr (NEG a'))"
  "visit_kids f (AND es) = (case mapM f es of Inl err \<Rightarrow> Inl err | Inr es' \<Rightarrow> Inr (AND es'))"
  "visit_kids f (OR es) = (case mapM f es of Inl err \<Rightarrow> Inl err | Inr es' \<Rightarrow> Inr (OR es'))"
  "visit_kids f (OtherOp g es) =
     (case mapM f es of Inl err \<Rightarrow> Inl err | Inr es' \<Rightarrow> Inr (OtherOp g es'))"
  by (simp_all add: visit_kids_def split: sum.splits)

lemma visit_kids_binary:
  "visit_kids f (IMPL a b) =
     (case f a of Inl err \<Rightarrow> Inl err
      | Inr a' \<Rightarrow> (case f b of Inl err \<Rightarrow> Inl err | Inr b' \<Rightarrow> Inr (IMPL a' b')))"
  "visit_kids f (IFF a b) =
     (case f a of Inl err \<Rightarrow> Inl err
      | Inr a' \<Rightarrow> (case f b of Inl err \<Rightarrow> Inl err | Inr b' \<Rightarrow> Inr (IFF a' b')))"
  "visit_kids f (XOR a b) =
     (case f a of Inl err \<Rightarrow> Inl err
      | Inr a' \<Rightarrow> (case f b of Inl err \<Rightarrow> Inl err | Inr b' \<Rightarrow> Inr (XOR a' b')))"
  "visit_kids f (EQ a b) =
     (case f a of Inl err \<Rightarrow> Inl err
      | Inr a' \<Rightarrow> (case f b of Inl err \<Rightarrow> Inl err | Inr b' \<Rightarrow> Inr (EQ a' b')))"
  "visit_kids f (TUPLE a b) =
     (case f a of Inl err \<Rightarrow> Inl err
      | Inr a' \<Rightarrow> (case f b of Inl err \<Rightarrow> Inl err | Inr b' \<Rightarrow> Inr (TUPLE a' b')))"
  by (simp_all add: visit_kids_def split: sum.splits)

lemma visit_kids_ITE:
  "visit_kids f (ITE c a b) =
     (case f c of Inl err \<Rightarrow> Inl err
      | Inr c' \<Rightarrow> (case f a of Inl err \<Rightarrow> Inl err
          | Inr a' \<Rightarrow> (case f b of Inl err \<Rightarrow> Inl err | Inr b' \<Rightarrow> Inr (ITE c' a' b'))))"
  by (simp add: visit_kids_def split: sum.splits)

lemma pre_nnf_unfold:
  "pre_nnf e = (case visit_kids pre_nnf e of Inl err \<Rightarrow> Inl err | Inr e' \<Rightarrow> PreNNF e')"
proof -
  have "dagVisit (BS PreNNF) = pre_nnf"
    by (rule ext) (simp add: pre_nnf_def)
  moreover have "pre_nnf e =
      (case visit_kids (dagVisit (BS PreNNF)) e of Inl err \<Rightarrow> Inl err | Inr e' \<Rightarrow> PreNNF e')"
    unfolding pre_nnf_def by (subst dagVisit.simps) (simp add: BS_def)
  ultimately show ?thesis by simp
qed

lemma mapM_Inl:
  "x \<in> set xs \<Longrightarrow> f x = Inl err \<Longrightarrow> \<exists>err'. mapM f xs = Inl err'"
  by (induction xs) (auto split: sum.splits)

lemma mapM_Inr_list_all2:
  "mapM f xs = Inr ys \<longleftrightarrow> list_all2 (\<lambda>x y. f x = Inr y) xs ys"
proof (induction xs arbitrary: ys)
  case Nil
  then show ?case by auto
next
  case (Cons x xs)
  show ?case
    by (cases ys) (auto simp: Cons.IH [symmetric] split: sum.splits)
qed

lemma pre_nnf_XOR_node: "pre_nnf (XOR a b) = Inl AssertionFailed"
  by (subst pre_nnf_unfold) (simp add: visit_kids_binary error_eq split: sum.splits)


lemma pre_nnf_XOR: "contains_XOR e \<Longrightarrow> pre_nnf e = Inl AssertionFailed"
proof (induction e rule: measure_induct_rule [where f = size])
  case (less e)
  show ?case
  proof (cases "\<exists>a b. e = XOR a b")
    case True
    then show ?thesis
      by (auto simp: pre_nnf_XOR_node)
  next
    case False
    with less.prems have "list_ex contains_XOR (kids e)"
      by (cases e) auto
    then obtain k where k: "k \<in> set (kids e)" "contains_XOR k"
      by (auto simp: list_ex_iff)
    then have "pre_nnf k = Inl AssertionFailed"
      by (simp add: less.IH kids_size)
    from mapM_Inl [of k "kids e" pre_nnf AssertionFailed, OF k(1) this]
    obtain err where "mapM pre_nnf (kids e) = Inl err" ..
    then have "visit_kids pre_nnf e = Inl err"
      by (simp add: visit_kids_def)
    then have "pre_nnf e = Inl err"
      by (subst pre_nnf_unfold) simp
    also have "err = AssertionFailed"
      by (rule error_eq)
    finally show ?thesis .
  qed
qed

lemma bool_abstraction_XOR: "contains_XOR e \<Longrightarrow> bool_abstraction e = Inl AssertionFailed"
  by (simp add: bool_abstraction_def pre_nnf_XOR)

lemma push_abstractions_XOR:
  "e \<in> set side \<Longrightarrow> contains_XOR e \<Longrightarrow> push_abstractions side acc = Inl AssertionFailed"
proof (induction side arbitrary: acc)
  case Nil
  then show ?case by simp
next
  case (Cons c side)
  show ?case
  proof (cases "bool_abstraction c")
    case (Inl err)
    then show ?thesis by (simp add: error_eq)
  next
    case (Inr b)
    with Cons.prems have "c \<noteq> e"
      by (auto simp: bool_abstraction_XOR)
    with Cons.prems have "e \<in> set side" by simp
    with Cons.IH Cons.prems Inr show ?thesis by simp
  qed
qed

text \<open>
  C6. XOR rejection. \<open>PreNNF\<close> fails its assertion at an \<open>XOR\<close> node. When a clause
  of the side formula contains an \<open>XOR\<close>, the pre-NNF pass on it fails, so the
  abstraction of the side formula fails instead of returning a list, and so does
  \<^verbatim>\<open>solve()\<close> on an encoding with such a clause.
\<close>

theorem xor_rejected:
  assumes "e \<in> set side" and "contains_XOR e"
  shows "PreNNF (XOR a b) = Inl AssertionFailed \<and>
         pre_nnf e = Inl AssertionFailed \<and>
         bool_abstraction_vec side abs_side = Inl AssertionFailed \<and>
         (encode_side X = side \<longrightarrow> solve fuel X s = Some (Inl AssertionFailed))"
  using push_abstractions_XOR [OF assms] pre_nnf_XOR [OF assms(2)]
  by (simp add: bool_abstraction_vec_def solve_def)

theorem xor_rejected_witness:
  "EQ (BoolConst (BasicBlock 0)) (XOR (BoolConst (BasicBlock 0)) (BoolConst (BasicBlock 1)))
     \<in> set [BoolConst (BasicBlock 0),
             EQ (BoolConst (BasicBlock 0))
               (XOR (BoolConst (BasicBlock 0)) (BoolConst (BasicBlock 1)))] \<and>
   contains_XOR
     (EQ (BoolConst (BasicBlock 0)) (XOR (BoolConst (BasicBlock 0)) (BoolConst (BasicBlock 1)))) \<and>
   bool_abstraction_vec
     [BoolConst (BasicBlock 0),
      EQ (BoolConst (BasicBlock 0)) (XOR (BoolConst (BasicBlock 0)) (BoolConst (BasicBlock 1)))]
     [] = Inl AssertionFailed \<and>
   solve 1
     (single_block_program\<lparr>encode_side :=
        [BoolConst (BasicBlock 0),
         EQ (BoolConst (BasicBlock 0))
           (XOR (BoolConst (BasicBlock 0)) (BoolConst (BasicBlock 1)))]\<rparr>)
     new_engine = Some (Inl AssertionFailed)"
  using xor_rejected [of
      "EQ (BoolConst (BasicBlock 0)) (XOR (BoolConst (BasicBlock 0)) (BoolConst (BasicBlock 1)))"
      "[BoolConst (BasicBlock 0),
        EQ (BoolConst (BasicBlock 0)) (XOR (BoolConst (BasicBlock 0)) (BoolConst (BasicBlock 1)))]"
      TRUE TRUE "[]"
      "single_block_program\<lparr>encode_side :=
        [BoolConst (BasicBlock 0),
         EQ (BoolConst (BasicBlock 0))
           (XOR (BoolConst (BasicBlock 0)) (BoolConst (BasicBlock 1)))]\<rparr>"
      1 new_engine]
  by simp

lemma PreNNF_Inl: "PreNNF e = Inl err \<Longrightarrow> \<exists>a b. e = XOR a b"
  by (cases e) simp_all

lemma rebuild_XOR: "rebuild e ks = XOR a b \<Longrightarrow> \<exists>a' b'. e = XOR a' b'"
  by (cases e; cases ks) (auto split: list.splits elim: rebuild.elims)

lemma pre_nnf_total: "\<not> contains_XOR e \<Longrightarrow> \<exists>e'. pre_nnf e = Inr e'"
proof (induction e rule: measure_induct_rule [where f = size])
  case (less e)
  from less.prems have notx: "\<And>a b. e \<noteq> XOR a b" by auto
  with less.prems have "\<not> list_ex contains_XOR (kids e)"
    by (cases e) auto
  then have "\<And>k. k \<in> set (kids e) \<Longrightarrow> \<exists>k'. pre_nnf k = Inr k'"
    by (simp add: less.IH kids_size list_ex_iff)
  then have "mapM pre_nnf (kids e) = Inr (map (\<lambda>x. projr (pre_nnf x)) (kids e))"
    by (rule mapM_total)
  then obtain ks where vk: "visit_kids pre_nnf e = Inr (rebuild e ks)"
    by (simp add: visit_kids_def)
  have "\<exists>e'. PreNNF (rebuild e ks) = Inr e'"
  proof (cases "PreNNF (rebuild e ks)")
    case (Inl err)
    from PreNNF_Inl [OF this] rebuild_XOR notx show ?thesis by blast
  next
    case (Inr e')
    then show ?thesis by simp
  qed
  then show ?case
    by (subst pre_nnf_unfold) (simp add: vk)
qed

lemma bool_abstraction_total: "\<not> contains_XOR e \<Longrightarrow> \<exists>e'. bool_abstraction e = Inr e'"
  using pre_nnf_total [of e] dagVisit_BA_total
  by (auto simp: bool_abstraction_def)

lemma BA_skeleton: "is_skeleton (projr (dagVisit BA e))"
proof (induction e)
  case (AND es)
  then show ?case by (simp add: dagVisit_BA_AND list_all_iff)
next
  case (OR es)
  then show ?case by (simp add: dagVisit_BA_OR list_all_iff)
qed (simp_all add: dagVisit_BA_pos dagVisit_BA_NEG dagVisit_BA_EQ dagVisit_BA_other is_neg_bool_lit_def)

lemma mapM_id: "(\<And>x. x \<in> set xs \<Longrightarrow> f x = Inr x) \<Longrightarrow> mapM f xs = Inr xs"
  by (induction xs) simp_all

lemma pre_nnf_pos_lit: "is_pos_bool_lit e \<Longrightarrow> pre_nnf e = Inr e"
  by (cases e) (simp_all add: pre_nnf_unfold [of TRUE] pre_nnf_unfold [of FALSE]
      pre_nnf_unfold [of "BoolConst n" for n] visit_kids_simps)

lemma pre_nnf_lit: "is_bool_lit e \<Longrightarrow> pre_nnf e = Inr e"
  by (cases e)
    (auto simp: is_bool_lit_def is_neg_bool_lit_def pre_nnf_pos_lit visit_kids_simps
      pre_nnf_unfold [of "NEG a" for a])

lemma skeleton_pre_nnf: "is_skeleton e \<Longrightarrow> pre_nnf e = Inr e"
proof (induction e)
  case (AND es)
  then have "mapM pre_nnf es = Inr es"
    by (intro mapM_id) (simp add: list_all_iff)
  then show ?case
    by (subst pre_nnf_unfold) (simp add: visit_kids_simps)
next
  case (OR es)
  then have "mapM pre_nnf es = Inr es"
    by (intro mapM_id) (simp add: list_all_iff)
  then show ?case
    by (subst pre_nnf_unfold) (simp add: visit_kids_simps)
next
  case (NEG a)
  then show ?case
    by (simp add: pre_nnf_lit is_bool_lit_def is_neg_bool_lit_def)
next
  case (EQ a b)
  then show ?case
    by (subst pre_nnf_unfold) (simp add: visit_kids_binary pre_nnf_lit)
qed (simp_all add: pre_nnf_pos_lit)

lemma nnf_pol_pos_lit: "is_pos_bool_lit a \<Longrightarrow> nnf_pol p a = (if p then a else NEG a)"
  by (cases a) simp_all

lemma skeleton_nnf: "is_skeleton e \<Longrightarrow> nnf e = e"
  unfolding nnf_def
proof (induction e)
  case (AND es)
  then show ?case by (simp add: list_all_iff map_idI)
next
  case (OR es)
  then show ?case by (simp add: list_all_iff map_idI)
qed (simp_all add: nnf_pol_pos_lit)

lemma skeleton_BA: "is_skeleton e \<Longrightarrow> dagVisit BA e = Inr e"
proof (induction e)
  case (AND es)
  then show ?case by (simp add: dagVisit_BA_AND list_all_iff map_idI)
next
  case (OR es)
  then show ?case by (simp add: dagVisit_BA_OR list_all_iff map_idI)
qed (simp_all add: dagVisit_BA_pos dagVisit_BA_NEG dagVisit_BA_EQ)

lemma skeleton_fixed: "is_skeleton e \<Longrightarrow> bool_abstraction e = Inr e"
  by (simp add: bool_abstraction_def skeleton_pre_nnf skeleton_nnf skeleton_BA)

lemma bool_abstraction_skeleton:
  assumes "bool_abstraction x = Inr y"
  shows "is_skeleton y"
proof -
  from assms obtain x1 where "dagVisit BA (nnf x1) = Inr y"
    by (auto simp: bool_abstraction_def split: sum.splits)
  with BA_skeleton [of "nnf x1"] show ?thesis by simp
qed

lemma lit_skeleton: "is_bool_lit l \<Longrightarrow> is_skeleton l"
  by (cases l) (auto simp: is_bool_lit_def is_neg_bool_lit_def)

lemma dagVisit_BA_skeleton_of: "dagVisit BA e = Inr (skeleton_of e)"
proof (induction e)
  case (AND es)
  then have "map (\<lambda>x. projr (dagVisit BA x)) es = map skeleton_of es"
    by simp
  then show ?case by (simp add: dagVisit_BA_AND)
next
  case (OR es)
  then have "map (\<lambda>x. projr (dagVisit BA x)) es = map skeleton_of es"
    by simp
  then show ?case by (simp add: dagVisit_BA_OR)
qed (simp_all add: dagVisit_BA_pos dagVisit_BA_NEG dagVisit_BA_EQ dagVisit_BA_other
    is_neg_bool_lit_def)

lemma bool_abstraction_Inr:
  assumes "bool_abstraction c = Inr y"
  shows "\<exists>c1. pre_nnf c = Inr c1 \<and> y = skeleton_of (nnf c1)"
  using assms by (auto simp: bool_abstraction_def dagVisit_BA_skeleton_of split: sum.splits)

lemma push_abstractions_each:
  "push_abstractions side acc = Inr r \<Longrightarrow> \<forall>c\<in>set side. \<exists>b. bool_abstraction c = Inr b"
proof (induction side arbitrary: acc)
  case Nil
  then show ?case by simp
next
  case (Cons c side)
  from Cons.prems obtain b where b: "bool_abstraction c = Inr b"
    and rest: "push_abstractions side (acc @ [b]) = Inr r"
    by (auto split: sum.splits)
  from Cons.IH [OF rest] b show ?case by simp
qed

lemma push_abstractions_total:
  "\<forall>c\<in>set side. \<not> contains_XOR c \<Longrightarrow> \<exists>r. push_abstractions side acc = Inr r"
proof (induction side arbitrary: acc)
  case Nil
  then show ?case by simp
next
  case (Cons c side)
  from Cons.prems bool_abstraction_total [of c] obtain b where "bool_abstraction c = Inr b"
    by auto
  with Cons.IH [of "acc @ [b]"] Cons.prems show ?case by simp
qed

lemma bool_abstraction_vec_each:
  assumes "bool_abstraction_vec side [] = Inr abs_side"
  shows "\<forall>c\<in>set side. \<exists>c1 y. pre_nnf c = Inr c1 \<and> bool_abstraction c = Inr y \<and>
           y = skeleton_of (nnf c1) \<and> is_skeleton y"
proof
  fix c
  assume c: "c \<in> set side"
  from assms obtain r where "push_abstractions side [] = Inr r"
    by (auto simp: bool_abstraction_vec_def split: sum.splits)
  from push_abstractions_each [OF this] c obtain y where y: "bool_abstraction c = Inr y"
    by auto
  from bool_abstraction_Inr [OF y] bool_abstraction_skeleton [OF y] y
  show "\<exists>c1 y. pre_nnf c = Inr c1 \<and> bool_abstraction c = Inr y \<and>
      y = skeleton_of (nnf c1) \<and> is_skeleton y"
    by auto
qed

lemma bool_abstraction_vec_skeleton_of:
  assumes "bool_abstraction_vec side [] = Inr abs_side"
  shows "abs_side =
    filter (\<lambda>c. c \<noteq> TRUE) (map (\<lambda>c. skeleton_of (nnf (projr (pre_nnf c)))) side)"
proof -
  have "map (\<lambda>c. projr (bool_abstraction c)) side =
      map (\<lambda>c. skeleton_of (nnf (projr (pre_nnf c)))) side"
  proof (rule map_cong [OF refl])
    fix c
    assume "c \<in> set side"
    with bool_abstraction_vec_each [OF assms] obtain c1 y where
      "pre_nnf c = Inr c1" "bool_abstraction c = Inr y" "y = skeleton_of (nnf c1)"
      by blast
    then show "projr (bool_abstraction c) = skeleton_of (nnf (projr (pre_nnf c)))"
      by simp
  qed
  with bool_abstraction_vec_Inr [OF assms] show ?thesis by simp
qed

lemma bool_abstraction_vec_skeletons:
  assumes "bool_abstraction_vec side [] = Inr abs_side"
  shows "list_all is_skeleton abs_side"
proof -
  have "is_skeleton (projr (bool_abstraction c))" if "c \<in> set side" for c
    using bool_abstraction_vec_each [OF assms] that by fastforce
  with bool_abstraction_vec_Inr [OF assms] show ?thesis
    by (auto simp: list_all_iff)
qed

lemma bool_abstraction_vec_total:
  "\<forall>c\<in>set side. \<not> contains_XOR c \<Longrightarrow> \<exists>abs_side. bool_abstraction_vec side [] = Inr abs_side"
  using push_abstractions_total [of side "[]"]
  by (auto simp: bool_abstraction_vec_def)

text \<open>
  C5. Skeleton extraction. The visitor \<open>BA\<close> returns the skeleton of its argument: it
  keeps a positive Boolean literal, keeps the negation of a positive Boolean literal,
  goes through \<open>AND\<close> and \<open>OR\<close> (the result is the same node over the abstractions of the
  children), keeps an equality whose two sides are Boolean literals, and replaces every
  other expression with \<open>TRUE\<close>. The abstraction of a clause, when it returns, is the
  skeleton of the clause's negation normal form, and it is of the shape of a skeleton;
  it returns for every clause without \<open>XOR\<close>, and a clause that is a skeleton already is
  its own abstraction. When the abstraction of a side formula \<open>m_side\<close> returns, the
  result is the list of the clauses' abstractions, which are those skeletons, in the
  order of \<open>m_side\<close>, without those that are \<open>TRUE\<close>; and it returns when no clause holds
  an \<open>XOR\<close>.
\<close>

theorem skeleton_extraction:
  "dagVisit BA e = Inr (skeleton_of e) \<and>
   (is_pos_bool_lit e \<longrightarrow> dagVisit BA e = Inr e) \<and>
   (is_pos_bool_lit l \<longrightarrow> dagVisit BA (NEG l) = Inr (NEG l)) \<and>
   dagVisit BA (AND es) = Inr (AND (map (\<lambda>x. projr (dagVisit BA x)) es)) \<and>
   dagVisit BA (OR es) = Inr (OR (map (\<lambda>x. projr (dagVisit BA x)) es)) \<and>
   (is_bool_lit a \<and> is_bool_lit b \<longrightarrow> dagVisit BA (EQ a b) = Inr (EQ a b)) \<and>
   (\<not> is_pos_bool_lit x \<and> \<not> is_neg_bool_lit x \<and> (\<forall>xs. x \<noteq> AND xs) \<and> (\<forall>xs. x \<noteq> OR xs) \<and>
    (\<forall>c d. x = EQ c d \<longrightarrow> \<not> (is_bool_lit c \<and> is_bool_lit d))
      \<longrightarrow> dagVisit BA x = Inr TRUE) \<and>
   (\<forall>y. bool_abstraction c = Inr y \<longrightarrow>
      is_skeleton y \<and> (\<exists>c1. pre_nnf c = Inr c1 \<and> y = skeleton_of (nnf c1))) \<and>
   (\<not> contains_XOR c \<longrightarrow> (\<exists>y. bool_abstraction c = Inr y)) \<and>
   (is_skeleton c \<longrightarrow> bool_abstraction c = Inr c) \<and>
   (bool_abstraction_vec side [] = Inr abs_side \<longrightarrow>
      abs_side = filter (\<lambda>c. c \<noteq> TRUE) (map (\<lambda>c. projr (bool_abstraction c)) side) \<and>
      abs_side =
        filter (\<lambda>c. c \<noteq> TRUE) (map (\<lambda>c. skeleton_of (nnf (projr (pre_nnf c)))) side) \<and>
      list_all is_skeleton abs_side \<and>
      (\<forall>c\<in>set side. \<exists>c1 y. pre_nnf c = Inr c1 \<and> bool_abstraction c = Inr y \<and>
         y = skeleton_of (nnf c1) \<and> is_skeleton y)) \<and>
   ((\<forall>c\<in>set side. \<not> contains_XOR c) \<longrightarrow>
      (\<exists>abs_side. bool_abstraction_vec side [] = Inr abs_side))"
proof -
  have "\<forall>y. bool_abstraction c = Inr y \<longrightarrow>
      is_skeleton y \<and> (\<exists>c1. pre_nnf c = Inr c1 \<and> y = skeleton_of (nnf c1))"
    using bool_abstraction_Inr [of c] bool_abstraction_skeleton [of c] by blast
  moreover have "bool_abstraction_vec side [] = Inr abs_side \<longrightarrow>
      abs_side = filter (\<lambda>c. c \<noteq> TRUE) (map (\<lambda>c. projr (bool_abstraction c)) side) \<and>
      abs_side =
        filter (\<lambda>c. c \<noteq> TRUE) (map (\<lambda>c. skeleton_of (nnf (projr (pre_nnf c)))) side) \<and>
      list_all is_skeleton abs_side \<and>
      (\<forall>c\<in>set side. \<exists>c1 y. pre_nnf c = Inr c1 \<and> bool_abstraction c = Inr y \<and>
         y = skeleton_of (nnf c1) \<and> is_skeleton y)"
    using bool_abstraction_vec_Inr [of side "[]" abs_side]
      bool_abstraction_vec_skeleton_of [of side abs_side]
      bool_abstraction_vec_skeletons [of side abs_side]
      bool_abstraction_vec_each [of side abs_side]
    by simp
  moreover have "(\<forall>c\<in>set side. \<not> contains_XOR c) \<longrightarrow>
      (\<exists>abs_side. bool_abstraction_vec side [] = Inr abs_side)"
    using bool_abstraction_vec_total [of side] by blast
  moreover note dagVisit_BA_skeleton_of [of e] dagVisit_BA_pos [of e] dagVisit_BA_NEG [of l]
    dagVisit_BA_AND [of es] dagVisit_BA_OR [of es] dagVisit_BA_EQ [of a b]
    dagVisit_BA_other [of x] bool_abstraction_total [of c] skeleton_fixed [of c]
  ultimately show ?thesis
    by simp
qed

lemma bool_abstraction_vec_example:
  "bool_abstraction_vec
     [BoolConst (BasicBlock 0),
      OtherOp ''lt'' [OtherOp ''x'' [], OtherOp ''y'' []],
      IMPL (BoolConst (BasicBlock 0)) (BoolConst (BasicBlock 1))] [] =
   Inr [BoolConst (BasicBlock 0),
        OR [NEG (BoolConst (BasicBlock 0)), BoolConst (BasicBlock 1)]]"
  by code_simp

lemma skeleton_vec_example:
  "bool_abstraction_vec
     [BoolConst (BasicBlock 0),
      OtherOp ''lt'' [OtherOp ''x'' [], OtherOp ''y'' []],
      IMPL (BoolConst (BasicBlock 0)) (BoolConst (BasicBlock 1)),
      AND [OtherOp ''lt'' [OtherOp ''x'' [], OtherOp ''y'' []], BoolConst (BasicBlock 2)]] [] =
   Inr [BoolConst (BasicBlock 0),
        OR [NEG (BoolConst (BasicBlock 0)), BoolConst (BasicBlock 1)],
        AND [TRUE, BoolConst (BasicBlock 2)]]"
  by code_simp

lemma bool_abstraction_clause_example:
  "bool_abstraction
     (AND [OtherOp ''lt'' [OtherOp ''x'' [], OtherOp ''y'' []], BoolConst (BasicBlock 2)]) =
   Inr (AND [TRUE, BoolConst (BasicBlock 2)])"
  by code_simp

theorem skeleton_extraction_witness:
  "is_pos_bool_lit (BoolConst (BasicBlock 0)) \<and>
   dagVisit BA (BoolConst (BasicBlock 0)) = Inr (BoolConst (BasicBlock 0)) \<and>
   dagVisit BA (NEG (BoolConst (BasicBlock 0))) = Inr (NEG (BoolConst (BasicBlock 0))) \<and>
   is_bool_lit (NEG (BoolConst (BasicBlock 0))) \<and> is_bool_lit FALSE \<and>
   dagVisit BA (EQ (NEG (BoolConst (BasicBlock 0))) FALSE) =
     Inr (EQ (NEG (BoolConst (BasicBlock 0))) FALSE) \<and>
   \<not> is_pos_bool_lit (OtherOp ''lt'' [OtherOp ''x'' [], OtherOp ''y'' []]) \<and>
   \<not> is_neg_bool_lit (OtherOp ''lt'' [OtherOp ''x'' [], OtherOp ''y'' []]) \<and>
   dagVisit BA (OtherOp ''lt'' [OtherOp ''x'' [], OtherOp ''y'' []]) = Inr TRUE \<and>
   \<not> contains_XOR
     (AND [OtherOp ''lt'' [OtherOp ''x'' [], OtherOp ''y'' []], BoolConst (BasicBlock 2)]) \<and>
   bool_abstraction
     (AND [OtherOp ''lt'' [OtherOp ''x'' [], OtherOp ''y'' []], BoolConst (BasicBlock 2)]) =
     Inr (AND [TRUE, BoolConst (BasicBlock 2)]) \<and>
   is_skeleton (AND [TRUE, BoolConst (BasicBlock 2)]) \<and>
   bool_abstraction (AND [TRUE, BoolConst (BasicBlock 2)]) =
     Inr (AND [TRUE, BoolConst (BasicBlock 2)]) \<and>
   bool_abstraction_vec
     [BoolConst (BasicBlock 0),
      OtherOp ''lt'' [OtherOp ''x'' [], OtherOp ''y'' []],
      IMPL (BoolConst (BasicBlock 0)) (BoolConst (BasicBlock 1)),
      AND [OtherOp ''lt'' [OtherOp ''x'' [], OtherOp ''y'' []], BoolConst (BasicBlock 2)]] [] =
   Inr [BoolConst (BasicBlock 0),
        OR [NEG (BoolConst (BasicBlock 0)), BoolConst (BasicBlock 1)],
        AND [TRUE, BoolConst (BasicBlock 2)]] \<and>
   list_all is_skeleton
     [BoolConst (BasicBlock 0),
      OR [NEG (BoolConst (BasicBlock 0)), BoolConst (BasicBlock 1)],
      AND [TRUE, BoolConst (BasicBlock 2)]]"
proof -
  let ?lt = "OtherOp ''lt'' [OtherOp ''x'' [], OtherOp ''y'' []]"
  let ?c = "AND [?lt, BoolConst (BasicBlock 2)]"
  let ?side = "[BoolConst (BasicBlock 0), ?lt,
      IMPL (BoolConst (BasicBlock 0)) (BoolConst (BasicBlock 1)), ?c]"
  let ?abs = "[BoolConst (BasicBlock 0),
      OR [NEG (BoolConst (BasicBlock 0)), BoolConst (BasicBlock 1)],
      AND [TRUE, BoolConst (BasicBlock 2)]]"
  note t1 = skeleton_extraction [of "BoolConst (BasicBlock 0)" "BoolConst (BasicBlock 0)" "[]"
      "NEG (BoolConst (BasicBlock 0))" FALSE ?lt ?c ?side ?abs]
  note t2 = skeleton_extraction [of "BoolConst (BasicBlock 0)" "BoolConst (BasicBlock 0)" "[]"
      "NEG (BoolConst (BasicBlock 0))" FALSE ?lt "AND [TRUE, BoolConst (BasicBlock 2)]"
      ?side ?abs]
  note r1 = t1 [THEN conjunct2]
  note r2 = r1 [THEN conjunct2]
  note r3 = r2 [THEN conjunct2]
  note r4 = r3 [THEN conjunct2]
  note r5 = r4 [THEN conjunct2]
  note r6 = r5 [THEN conjunct2]
  note r7 = r6 [THEN conjunct2]
  note r8 = r7 [THEN conjunct2]
  note r9 = r8 [THEN conjunct2]
  note r10 = r9 [THEN conjunct2]
  have lits: "is_bool_lit (NEG (BoolConst (BasicBlock 0)))" "is_bool_lit FALSE"
    by (simp_all add: is_bool_lit_def is_neg_bool_lit_def)
  have nl: "\<not> is_neg_bool_lit ?lt"
    by (simp add: is_neg_bool_lit_def)
  have nx: "\<not> contains_XOR ?c"
    by simp
  have f2: "dagVisit BA (BoolConst (BasicBlock 0)) = Inr (BoolConst (BasicBlock 0))"
    using r1 [THEN conjunct1] by simp
  have f3: "dagVisit BA (NEG (BoolConst (BasicBlock 0))) = Inr (NEG (BoolConst (BasicBlock 0)))"
    using r2 [THEN conjunct1] by simp
  have f6: "dagVisit BA (EQ (NEG (BoolConst (BasicBlock 0))) FALSE) =
      Inr (EQ (NEG (BoolConst (BasicBlock 0))) FALSE)"
    using r5 [THEN conjunct1] lits by simp
  have f7: "dagVisit BA ?lt = Inr TRUE"
    using r6 [THEN conjunct1] nl by simp
  have f8: "is_skeleton (AND [TRUE, BoolConst (BasicBlock 2)])"
    using r7 [THEN conjunct1] bool_abstraction_clause_example by blast
  have f10: "bool_abstraction (AND [TRUE, BoolConst (BasicBlock 2)]) =
      Inr (AND [TRUE, BoolConst (BasicBlock 2)])"
    using t2 [THEN conjunct2, THEN conjunct2, THEN conjunct2, THEN conjunct2, THEN conjunct2,
      THEN conjunct2, THEN conjunct2, THEN conjunct2, THEN conjunct2, THEN conjunct1] f8
    by blast
  have f11: "list_all is_skeleton ?abs"
    using r10 [THEN conjunct1] skeleton_vec_example by blast
  from f2 f3 f6 f7 f8 f10 f11 lits nl nx skeleton_vec_example
    bool_abstraction_clause_example
  show ?thesis
    by simp
qed

text \<open>
  C9. Idempotence. For an expression \<open>x\<close> without \<open>XOR\<close>, the abstraction returns
  an expression \<open>y\<close>, and the abstraction of \<open>y\<close> is \<open>y\<close> again. A Boolean literal is
  its own abstraction.
\<close>

theorem bool_abstraction_idempotent:
  "(\<not> contains_XOR x \<longrightarrow>
      (\<exists>y. bool_abstraction x = Inr y \<and> bool_abstraction y = Inr y)) \<and>
   (is_bool_lit l \<longrightarrow> bool_abstraction l = Inr l)"
  using bool_abstraction_total [of x] bool_abstraction_skeleton [of x] skeleton_fixed
    lit_skeleton [of l]
  by blast

lemma bool_abstraction_example:
  "bool_abstraction
     (IMPL (BoolConst (BasicBlock 1))
        (AND [OtherOp ''eq'' [OtherOp ''x'' [], OtherOp ''1'' []], BoolConst (BasicBlock 2)])) =
   Inr (OR [NEG (BoolConst (BasicBlock 1)), AND [TRUE, BoolConst (BasicBlock 2)]])"
  by code_simp

theorem bool_abstraction_idempotent_witness:
  "\<not> contains_XOR
      (IMPL (BoolConst (BasicBlock 1))
        (AND [OtherOp ''eq'' [OtherOp ''x'' [], OtherOp ''1'' []], BoolConst (BasicBlock 2)])) \<and>
   bool_abstraction
     (IMPL (BoolConst (BasicBlock 1))
        (AND [OtherOp ''eq'' [OtherOp ''x'' [], OtherOp ''1'' []], BoolConst (BasicBlock 2)])) =
     Inr (OR [NEG (BoolConst (BasicBlock 1)), AND [TRUE, BoolConst (BasicBlock 2)]]) \<and>
   bool_abstraction (OR [NEG (BoolConst (BasicBlock 1)), AND [TRUE, BoolConst (BasicBlock 2)]]) =
     Inr (OR [NEG (BoolConst (BasicBlock 1)), AND [TRUE, BoolConst (BasicBlock 2)]]) \<and>
   is_bool_lit (NEG TRUE) \<and> bool_abstraction (NEG TRUE) = Inr (NEG TRUE)"
  using bool_abstraction_idempotent [of
      "IMPL (BoolConst (BasicBlock 1))
        (AND [OtherOp ''eq'' [OtherOp ''x'' [], OtherOp ''1'' []], BoolConst (BasicBlock 2)])"
      "NEG TRUE"]
    bool_abstraction_example
  by (auto simp: is_bool_lit_def is_neg_bool_lit_def)

lemma pre_nnf_simps:
  "pre_nnf TRUE = Inr TRUE"
  "pre_nnf FALSE = Inr FALSE"
  "pre_nnf (BoolConst n) = Inr (BoolConst n)"
  "pre_nnf (BasicBlock k) = Inr (BasicBlock k)"
  "pre_nnf (NEG a) = (case pre_nnf a of Inl err \<Rightarrow> Inl err | Inr a' \<Rightarrow> Inr (NEG a'))"
  "pre_nnf (AND es) = (case mapM pre_nnf es of Inl err \<Rightarrow> Inl err | Inr es' \<Rightarrow> Inr (AND es'))"
  "pre_nnf (OR es) = (case mapM pre_nnf es of Inl err \<Rightarrow> Inl err | Inr es' \<Rightarrow> Inr (OR es'))"
  "pre_nnf (OtherOp g es) =
     (case mapM pre_nnf es of Inl err \<Rightarrow> Inl err | Inr es' \<Rightarrow> Inr (OtherOp g es'))"
  "pre_nnf (EQ a b) =
     (case pre_nnf a of Inl err \<Rightarrow> Inl err
      | Inr a' \<Rightarrow> (case pre_nnf b of Inl err \<Rightarrow> Inl err | Inr b' \<Rightarrow> Inr (EQ a' b')))"
  "pre_nnf (TUPLE a b) =
     (case pre_nnf a of Inl err \<Rightarrow> Inl err
      | Inr a' \<Rightarrow> (case pre_nnf b of Inl err \<Rightarrow> Inl err | Inr b' \<Rightarrow> Inr (TUPLE a' b')))"
  "pre_nnf (IMPL a b) =
     (case pre_nnf a of Inl err \<Rightarrow> Inl err
      | Inr a' \<Rightarrow> (case pre_nnf b of Inl err \<Rightarrow> Inl err
          | Inr b' \<Rightarrow> Inr (OR [NEG a', b'])))"
  "pre_nnf (IFF a b) =
     (case pre_nnf a of Inl err \<Rightarrow> Inl err
      | Inr a' \<Rightarrow> (case pre_nnf b of Inl err \<Rightarrow> Inl err
          | Inr b' \<Rightarrow> Inr (AND [OR [NEG a', b'], OR [NEG b', a']])))"
  "pre_nnf (ITE c a b) =
     (case pre_nnf c of Inl err \<Rightarrow> Inl err
      | Inr c' \<Rightarrow> (case pre_nnf a of Inl err \<Rightarrow> Inl err
          | Inr a' \<Rightarrow> (case pre_nnf b of Inl err \<Rightarrow> Inl err
              | Inr b' \<Rightarrow> Inr (OR [AND [c', a'], AND [NEG c', b']]))))"
  by (subst pre_nnf_unfold,
      simp add: visit_kids_simps visit_kids_binary visit_kids_ITE lor_def land_def lneg_def
        split: sum.splits)+

lemma holds_simps:
  "holds M TRUE" "\<not> holds M FALSE"
  "holds M (BoolConst n) = bconst M n"
  "holds M (NEG a) = (\<not> holds M a)"
  "holds M (AND es) = list_all (holds M) es"
  "holds M (OR es) = list_ex (holds M) es"
  "holds M (IMPL a b) = (holds M a \<longrightarrow> holds M b)"
  "holds M (IFF a b) = (holds M a = holds M b)"
  "holds M (ITE c a b) = (if holds M c then holds M a else holds M b)"
  "holds M (EQ a b) = (eval M a = eval M b)"
  by (simp_all add: holds_def list_all_iff list_ex_iff)

lemma pre_nnf_pos_lit_inv: "pre_nnf x = Inr x' \<Longrightarrow> is_pos_bool_lit x' \<Longrightarrow> x' = x"
  by (cases x) (auto simp: pre_nnf_simps pre_nnf_XOR_node split: sum.splits)

lemma pre_nnf_lit_inv: "pre_nnf x = Inr x' \<Longrightarrow> is_bool_lit x' \<Longrightarrow> x' = x"
  by (cases x)
    (auto simp: pre_nnf_simps pre_nnf_XOR_node is_bool_lit_def is_neg_bool_lit_def
      dest: pre_nnf_pos_lit_inv split: sum.splits)


lemma BA_nnf_AND:
  "projr (dagVisit BA (nnf_pol p (AND es))) =
     (if p then AND (map (\<lambda>x. projr (dagVisit BA (nnf_pol p x))) es)
      else OR (map (\<lambda>x. projr (dagVisit BA (nnf_pol p x))) es))"
  by (simp add: dagVisit_BA_AND dagVisit_BA_OR comp_def)

lemma BA_nnf_OR:
  "projr (dagVisit BA (nnf_pol p (OR es))) =
     (if p then OR (map (\<lambda>x. projr (dagVisit BA (nnf_pol p x))) es)
      else AND (map (\<lambda>x. projr (dagVisit BA (nnf_pol p x))) es))"
  by (simp add: dagVisit_BA_AND dagVisit_BA_OR comp_def)

lemma mapM_set2:
  "mapM f xs = Inr ys \<Longrightarrow> y \<in> set ys \<Longrightarrow> \<exists>x\<in>set xs. f x = Inr y"
  by (induction xs arbitrary: ys) (auto split: sum.splits)

lemma mapM_set1:
  "mapM f xs = Inr ys \<Longrightarrow> x \<in> set xs \<Longrightarrow> \<exists>y\<in>set ys. f x = Inr y"
  by (induction xs arbitrary: ys) (auto split: sum.splits)

lemma sound_pol:
  "pre_nnf e = Inr e' \<Longrightarrow>
     (holds M e \<longrightarrow> holds M (projr (dagVisit BA (nnf_pol True e')))) \<and>
     (\<not> holds M e \<longrightarrow> holds M (projr (dagVisit BA (nnf_pol False e'))))"
proof (induction e arbitrary: e')
  case TRUE
  then show ?case by (simp add: pre_nnf_simps holds_simps dagVisit_BA_pos)
next
  case FALSE
  then show ?case by (auto simp: pre_nnf_simps holds_simps dagVisit_BA_NEG)
next
  case (BoolConst n)
  then show ?case by (auto simp: pre_nnf_simps holds_simps dagVisit_BA_NEG dagVisit_BA_pos)
next
  case (NEG a)
  from NEG.prems obtain a' where a': "pre_nnf a = Inr a'" and e': "e' = NEG a'"
    by (auto simp: pre_nnf_simps split: sum.splits)
  from NEG.IH [OF a'] show ?case
    by (simp add: e' holds_simps)
next
  case (AND es)
  from AND.prems obtain es' where es': "mapM pre_nnf es = Inr es'" and e': "e' = AND es'"
    by (auto simp: pre_nnf_simps split: sum.splits)
  have pos: "holds M (projr (dagVisit BA (nnf_pol True y)))"
    if "holds M (AND es)" "y \<in> set es'" for y
  proof -
    from mapM_set2 [OF es' that(2)] obtain x where "x \<in> set es" "pre_nnf x = Inr y" by blast
    with AND.IH [of x y] that(1) show ?thesis
      by (simp add: holds_simps list_all_iff)
  qed
  have neg: "\<exists>y\<in>set es'. holds M (projr (dagVisit BA (nnf_pol False y)))"
    if "\<not> holds M (AND es)"
  proof -
    from that obtain x where x: "x \<in> set es" "\<not> holds M x"
      by (auto simp: holds_simps list_all_iff)
    from mapM_set1 [OF es' x(1)] obtain y where "y \<in> set es'" "pre_nnf x = Inr y" by blast
    with AND.IH [of x y] x show ?thesis by blast
  qed
  show ?case
    unfolding e' BA_nnf_AND using pos neg
    by (simp add: holds_simps list_all_iff list_ex_iff)
next
  case (OR es)
  from OR.prems obtain es' where es': "mapM pre_nnf es = Inr es'" and e': "e' = OR es'"
    by (auto simp: pre_nnf_simps split: sum.splits)
  have pos: "\<exists>y\<in>set es'. holds M (projr (dagVisit BA (nnf_pol True y)))"
    if "holds M (OR es)"
  proof -
    from that obtain x where x: "x \<in> set es" "holds M x"
      by (auto simp: holds_simps list_ex_iff)
    from mapM_set1 [OF es' x(1)] obtain y where "y \<in> set es'" "pre_nnf x = Inr y" by blast
    with OR.IH [of x y] x show ?thesis by blast
  qed
  have neg: "holds M (projr (dagVisit BA (nnf_pol False y)))"
    if "\<not> holds M (OR es)" "y \<in> set es'" for y
  proof -
    from mapM_set2 [OF es' that(2)] obtain x where "x \<in> set es" "pre_nnf x = Inr y" by blast
    with OR.IH [of x y] that(1) show ?thesis
      by (simp add: holds_simps list_ex_iff)
  qed
  show ?case
    unfolding e' BA_nnf_OR using pos neg
    by (simp add: holds_simps list_all_iff list_ex_iff)
next
  case (IMPL a b)
  from IMPL.prems obtain a' b' where a': "pre_nnf a = Inr a'" and b': "pre_nnf b = Inr b'"
    and e': "e' = OR [NEG a', b']"
    by (auto simp: pre_nnf_simps split: sum.splits)
  from IMPL.IH(1) [OF a'] IMPL.IH(2) [OF b'] show ?case
    by (auto simp: e' holds_simps dagVisit_BA_OR dagVisit_BA_AND)
next
  case (ITE c a b)
  from ITE.prems obtain c' a' b' where c': "pre_nnf c = Inr c'" and a': "pre_nnf a = Inr a'"
    and b': "pre_nnf b = Inr b'" and e': "e' = OR [AND [c', a'], AND [NEG c', b']]"
    by (auto simp: pre_nnf_simps split: sum.splits)
  from ITE.IH(1) [OF c'] ITE.IH(2) [OF a'] ITE.IH(3) [OF b'] show ?case
    by (auto simp: e' holds_simps dagVisit_BA_OR dagVisit_BA_AND)
next
  case (IFF a b)
  from IFF.prems obtain a' b' where a': "pre_nnf a = Inr a'" and b': "pre_nnf b = Inr b'"
    and e': "e' = AND [OR [NEG a', b'], OR [NEG b', a']]"
    by (auto simp: pre_nnf_simps split: sum.splits)
  from IFF.IH(1) [OF a'] IFF.IH(2) [OF b'] show ?case
    by (auto simp: e' holds_simps dagVisit_BA_OR dagVisit_BA_AND)
next
  case (XOR a b)
  then show ?case by (simp add: pre_nnf_XOR_node)
next
  case (EQ a b)
  from EQ.prems obtain a' b' where a': "pre_nnf a = Inr a'" and b': "pre_nnf b = Inr b'"
    and e': "e' = EQ a' b'"
    by (auto simp: pre_nnf_simps split: sum.splits)
  show ?case
    using pre_nnf_lit_inv [OF a'] pre_nnf_lit_inv [OF b']
    by (auto simp: e' holds_simps dagVisit_BA_EQ dagVisit_BA_NEG)
next
  case (TUPLE a b)
  then show ?case
    by (auto simp: pre_nnf_simps holds_simps dagVisit_BA_NEG dagVisit_BA_other
        is_neg_bool_lit_def split: sum.splits)
next
  case (BasicBlock k)
  then show ?case
    by (auto simp: pre_nnf_simps holds_simps dagVisit_BA_NEG dagVisit_BA_other
        is_neg_bool_lit_def split: sum.splits)
next
  case (OtherOp g es)
  then show ?case
    by (auto simp: pre_nnf_simps holds_simps dagVisit_BA_NEG dagVisit_BA_other
        is_neg_bool_lit_def split: sum.splits)
qed


lemma bool_abstraction_sound:
  assumes "bool_abstraction e = Inr b" and "holds M e"
  shows "holds M b"
proof -
  from assms(1) obtain e1 where e1: "pre_nnf e = Inr e1" and b: "dagVisit BA (nnf e1) = Inr b"
    by (auto simp: bool_abstraction_def split: sum.splits)
  from sound_pol [OF e1, of M] assms(2) b show ?thesis
    by (simp add: nnf_def)
qed

text \<open>
  C1. Abstraction soundness. For a side formula without \<open>XOR\<close>, the abstraction
  returns a list \<open>abs_side\<close>, and every model in which all clauses of the side formula
  hold is a model in which all clauses of \<open>abs_side\<close> hold.
\<close>

theorem abstraction_sound:
  assumes "\<not> list_ex contains_XOR side"
  shows "\<exists>abs_side. bool_abstraction_vec side [] = Inr abs_side \<and>
           (\<forall>M. holds_all M side \<longrightarrow> holds_all M abs_side)"
proof -
  have total: "\<And>c. c \<in> set side \<Longrightarrow> \<exists>b. bool_abstraction c = Inr b"
    using assms by (simp add: list_ex_iff bool_abstraction_total)
  have push: "push_abstractions cs acc = Inr (acc @ map (\<lambda>c. projr (bool_abstraction c)) cs)"
    if "set cs \<subseteq> set side" for cs acc
    using that
  proof (induction cs arbitrary: acc)
    case Nil
    then show ?case by simp
  next
    case (Cons c cs)
    from Cons.prems have "c \<in> set side" by simp
    from total [OF this] obtain b where "bool_abstraction c = Inr b" ..
    with Cons show ?case by simp
  qed
  let ?abs = "filter (\<lambda>c. c \<noteq> TRUE) (map (\<lambda>c. projr (bool_abstraction c)) side)"
  have run: "bool_abstraction_vec side [] = Inr ?abs"
    by (simp add: bool_abstraction_vec_def push)
  have "holds_all M ?abs" if "holds_all M side" for M
    unfolding holds_all_def list_all_iff
  proof
    fix b assume "b \<in> set ?abs"
    then obtain c where c: "c \<in> set side" and b: "b = projr (bool_abstraction c)"
      by auto
    from total [OF c] b have "bool_abstraction c = Inr b" by auto
    moreover from that c have "holds M c"
      by (simp add: holds_all_def list_all_iff)
    ultimately show "holds M b"
      by (rule bool_abstraction_sound)
  qed
  with run show ?thesis by blast
qed

theorem abstraction_sound_witness:
  "\<not> list_ex contains_XOR
      [BoolConst (BasicBlock 0),
       OtherOp ''lt'' [OtherOp ''x'' [], OtherOp ''y'' []],
       IMPL (BoolConst (BasicBlock 0)) (BoolConst (BasicBlock 1))] \<and>
   bool_abstraction_vec
     [BoolConst (BasicBlock 0),
      OtherOp ''lt'' [OtherOp ''x'' [], OtherOp ''y'' []],
      IMPL (BoolConst (BasicBlock 0)) (BoolConst (BasicBlock 1))] [] =
   Inr [BoolConst (BasicBlock 0),
        OR [NEG (BoolConst (BasicBlock 0)), BoolConst (BasicBlock 1)]] \<and>
   holds_all \<lparr>bconst = (\<lambda>n. True), func = (\<lambda>f vs. BoolV True)\<rparr>
     [BoolConst (BasicBlock 0),
      OtherOp ''lt'' [OtherOp ''x'' [], OtherOp ''y'' []],
      IMPL (BoolConst (BasicBlock 0)) (BoolConst (BasicBlock 1))] \<and>
   holds_all \<lparr>bconst = (\<lambda>n. True), func = (\<lambda>f vs. BoolV True)\<rparr>
     [BoolConst (BasicBlock 0),
      OR [NEG (BoolConst (BasicBlock 0)), BoolConst (BasicBlock 1)]]"
proof -
  let ?side = "[BoolConst (BasicBlock 0),
      OtherOp ''lt'' [OtherOp ''x'' [], OtherOp ''y'' []],
      IMPL (BoolConst (BasicBlock 0)) (BoolConst (BasicBlock 1))]"
  let ?M = "\<lparr>bconst = (\<lambda>n. True), func = (\<lambda>f vs. BoolV True)\<rparr>"
  have noxor: "\<not> list_ex contains_XOR ?side" by simp
  have h: "holds_all ?M ?side" by (simp add: holds_all_def holds_def)
  from abstraction_sound [OF noxor] obtain abs_side
    where "bool_abstraction_vec ?side [] = Inr abs_side"
      and "\<forall>M. holds_all M ?side \<longrightarrow> holds_all M abs_side"
    by blast
  with h bool_abstraction_vec_example noxor show ?thesis by simp
qed

section \<open>Properties of the main loop\<close>

lemma ai_frame:
  assumes "path_encoding_and_solve_with_ai X t s = Inr (r, s1)"
  shows "m_smt_solver s1 = m_smt_solver s \<and> m_blocking_clauses s1 = m_blocking_clauses s"
proof -
  obtain res stmts where pa: "path_analyze X t = (res, stmts)"
    by (cases "path_analyze X t")
  show ?thesis
  proof (cases res)
    case True
    with assms pa show ?thesis
      by (simp add: path_encoding_and_solve_with_ai_def)
  next
    case False
    note nres = this
    show ?thesis
    proof (cases "collect_active_lits X stmts []")
      case (Inl err)
      with assms pa nres show ?thesis
        by (simp add: path_encoding_and_solve_with_ai_def)
    next
      case (Inr found)
      show ?thesis
      proof (cases found)
        case None
        with assms pa nres Inr show ?thesis
          by (simp add: path_encoding_and_solve_with_ai_def)
      next
        case (Some active)
        obtain b lits where ev: "eval_active_lits (states X) active [] = (b, lits)"
          by (cases "eval_active_lits (states X) active []")
        with assms pa nres Inr Some show ?thesis
          by (cases b) (auto simp: path_encoding_and_solve_with_ai_def)
      qed
    qed
  qed
qed

lemma smt_frame:
  assumes "path_encoding_and_solve_with_smt X zm s = Inr (r, s1)"
  shows "m_smt_solver s1 = m_smt_solver s \<and> m_blocking_clauses s1 = m_blocking_clauses s"
proof -
  obtain implicant active_bool_map where
    gi: "get_model_implicant X (m_side s) zm = (implicant, active_bool_map)"
    by (cases "get_model_implicant X (m_side s) zm")
  show ?thesis
  proof (cases "smt_solve X (sort_unique (expr_less X) implicant)")
    case TriTrue
    with assms gi show ?thesis
      by (auto simp: path_encoding_and_solve_with_smt_def)
  next
    case TriFalse
    with assms gi show ?thesis
      by (auto simp: path_encoding_and_solve_with_smt_def muc_run_def)
  next
    case Indeterminate
    with assms gi show ?thesis
      by (auto simp: path_encoding_and_solve_with_smt_def)
  qed
qed

lemma tribool_test:
  "tribool_to_bool (tribool_or (tribool_eq_indeterminate res) res) \<longleftrightarrow> res = TriTrue"
  by (cases res)
    (simp_all add: tribool_to_bool_def tribool_or_def tribool_eq_indeterminate_def
      tribool_not_def)

text \<open>
  The two ways in which a turn comes to call \<^verbatim>\<open>add_blocking_clauses()\<close>: the abstract
  interpreter answers \<open>false\<close>, or the SMT refinement answers something other than
  \<open>true\<close>.
\<close>

lemma blocked_cases:
  assumes "refuted_by X s s1 \<or> unknown_by X s s1"
  shows "(UseCrab X \<and>
            path_encoding_and_solve_with_ai X (trace_blocks X (smt_getModel X (m_smt_solver s))) s =
              Inr (False, s1)) \<or>
         (\<exists>res s0. res \<noteq> TriTrue \<and>
            (if UseCrab X
             then path_encoding_and_solve_with_ai X
                    (trace_blocks X (smt_getModel X (m_smt_solver s))) s = Inr (True, s0)
             else s0 = s) \<and>
            path_encoding_and_solve_with_smt X (smt_getModel X (m_smt_solver s)) s0 =
              Inr (res, s1))"
proof (cases "UseCrab X")
  case False
  with assms show ?thesis
    by (auto simp: refuted_by_def unknown_by_def Let_def)
next
  case True
  let ?zm = "smt_getModel X (m_smt_solver s)"
  from assms True obtain res s0 where
    ai: "path_encoding_and_solve_with_ai X (trace_blocks X ?zm) s = Inr (res, s0)"
    by (auto simp: refuted_by_def unknown_by_def Let_def split: sum.splits)
  show ?thesis
  proof (cases res)
    case True
    with assms \<open>UseCrab X\<close> ai
    have "path_encoding_and_solve_with_smt X ?zm s0 = Inr (TriFalse, s1) \<or>
        path_encoding_and_solve_with_smt X ?zm s0 = Inr (Indeterminate, s1)"
      by (auto simp: refuted_by_def unknown_by_def Let_def)
    with True \<open>UseCrab X\<close> ai show ?thesis
      by auto
  next
    case False
    with assms \<open>UseCrab X\<close> ai have "s1 = s0"
      by (auto simp: refuted_by_def unknown_by_def Let_def)
    with False \<open>UseCrab X\<close> ai show ?thesis
      by simp
  qed
qed

lemma blocked_frame:
  assumes r: "refuted_by X s s1 \<or> unknown_by X s s1"
  shows "m_smt_solver s1 = m_smt_solver s \<and> m_blocking_clauses s1 = m_blocking_clauses s"
proof -
  let ?zm = "smt_getModel X (m_smt_solver s)"
  from blocked_cases [OF r] show ?thesis
  proof
    assume "UseCrab X \<and>
        path_encoding_and_solve_with_ai X (trace_blocks X ?zm) s = Inr (False, s1)"
    then show ?thesis
      using ai_frame [of X "trace_blocks X ?zm" s False s1] by simp
  next
    assume "\<exists>res s0. res \<noteq> TriTrue \<and>
        (if UseCrab X
         then path_encoding_and_solve_with_ai X (trace_blocks X ?zm) s = Inr (True, s0)
         else s0 = s) \<and>
        path_encoding_and_solve_with_smt X ?zm s0 = Inr (res, s1)"
    then obtain res s0 where
      pre: "if UseCrab X
         then path_encoding_and_solve_with_ai X (trace_blocks X ?zm) s = Inr (True, s0)
         else s0 = s"
      and smt: "path_encoding_and_solve_with_smt X ?zm s0 = Inr (res, s1)"
      by blast
    from pre have "m_smt_solver s0 = m_smt_solver s \<and> m_blocking_clauses s0 = m_blocking_clauses s"
      using ai_frame [of X "trace_blocks X ?zm" s True s0]
      by (cases "UseCrab X") simp_all
    with smt_frame [OF smt] show ?thesis by simp
  qed
qed

lemma add_blocking_clauses_eq:
  "add_blocking_clauses s = (ok, s') \<Longrightarrow>
     ok = (blocking_clause (m_active_bool_lits s) |\<notin>| m_blocking_clauses s) \<and>
     m_smt_solver s' = m_smt_solver s @ [blocking_clause (m_active_bool_lits s)] \<and>
     m_blocking_clauses s' = finsert (blocking_clause (m_active_bool_lits s)) (m_blocking_clauses s)"
  by (auto simp: add_blocking_clauses_def blocking_clause_def Let_def split: if_splits)

lemma add_blocking_clauses_warns:
  "m_active_bool_lits s = [] \<Longrightarrow> add_blocking_clauses s = (ok, s') \<Longrightarrow>
     errs s' = errs s @ [''No found active boolean literals. Trivially unsat ... '']"
  by (auto simp: add_blocking_clauses_def Let_def)

lemma smt_turn_blocked:
  assumes "path_encoding_and_solve_with_smt X zm s = Inr (res, s1)"
    and "res \<noteq> TriTrue"
    and "add_blocking_clauses s1 = (ok, s2)"
  shows "if ok then smt_turn X zm s = Continue s2
         else \<exists>msg. smt_turn X zm s = Return Indeterminate (s2\<lparr>errs := errs s2 @ [msg]\<rparr>)"
  using assms by (auto simp: smt_turn_def tribool_test)

lemma loop_turn_blocked:
  assumes r: "refuted_by X s s1 \<or> unknown_by X s s1"
    and a: "add_blocking_clauses s1 = (ok, s2)"
  shows "if ok then loop_turn X s = Continue s2
         else \<exists>msg. loop_turn X s = Return Indeterminate (s2\<lparr>errs := errs s2 @ [msg]\<rparr>)"
proof -
  let ?zm = "smt_getModel X (m_smt_solver s)"
  from blocked_cases [OF r] show ?thesis
  proof
    assume "UseCrab X \<and>
        path_encoding_and_solve_with_ai X (trace_blocks X ?zm) s = Inr (False, s1)"
    with a show ?thesis
      by (auto simp: loop_turn_def Let_def)
  next
    assume "\<exists>res s0. res \<noteq> TriTrue \<and>
        (if UseCrab X
         then path_encoding_and_solve_with_ai X (trace_blocks X ?zm) s = Inr (True, s0)
         else s0 = s) \<and>
        path_encoding_and_solve_with_smt X ?zm s0 = Inr (res, s1)"
    then obtain res s0 where nt: "res \<noteq> TriTrue"
      and pre: "if UseCrab X
         then path_encoding_and_solve_with_ai X (trace_blocks X ?zm) s = Inr (True, s0)
         else s0 = s"
      and smt: "path_encoding_and_solve_with_smt X ?zm s0 = Inr (res, s1)"
      by blast
    from pre have "loop_turn X s = smt_turn X ?zm s0"
      by (cases "UseCrab X") (simp_all add: loop_turn_def Let_def)
    with smt_turn_blocked [OF smt nt a] show ?thesis by simp
  qed
qed

lemma smt_turn_Continue:
  assumes "smt_turn X zm s0 = Continue s'"
  shows "\<exists>s1. (path_encoding_and_solve_with_smt X zm s0 = Inr (TriFalse, s1) \<or>
            path_encoding_and_solve_with_smt X zm s0 = Inr (Indeterminate, s1)) \<and>
           add_blocking_clauses s1 = (True, s')"
proof -
  from assms obtain res s1 where
    r: "path_encoding_and_solve_with_smt X zm s0 = Inr (res, s1)"
    by (auto simp: smt_turn_def split: sum.splits)
  with assms have nt: "res \<noteq> TriTrue"
    by (auto simp: smt_turn_def tribool_test)
  obtain ok s2 where a: "add_blocking_clauses s1 = (ok, s2)"
    by (cases "add_blocking_clauses s1")
  with assms r nt have "ok" "s2 = s'"
    by (auto simp: smt_turn_def tribool_test split: if_splits)
  with a r nt show ?thesis
    by (cases res) auto
qed

lemma loop_turn_Continue:
  assumes "loop_turn X s = Continue s'"
  shows "\<exists>s1. (refuted_by X s s1 \<or> unknown_by X s s1) \<and> add_blocking_clauses s1 = (True, s')"
proof -
  let ?zm = "smt_getModel X (m_smt_solver s)"
  show ?thesis
  proof (cases "UseCrab X")
    case False
    with assms have "smt_turn X ?zm s = Continue s'"
      by (simp add: loop_turn_def Let_def)
    from smt_turn_Continue [OF this] False show ?thesis
      by (auto simp: refuted_by_def unknown_by_def Let_def)
  next
    case True
    with assms obtain res s0 where
      ai: "path_encoding_and_solve_with_ai X (trace_blocks X ?zm) s = Inr (res, s0)"
      by (auto simp: loop_turn_def Let_def split: sum.splits)
    show ?thesis
    proof (cases res)
      case True
      with assms \<open>UseCrab X\<close> ai have "smt_turn X ?zm s0 = Continue s'"
        by (simp add: loop_turn_def Let_def)
      from smt_turn_Continue [OF this] True \<open>UseCrab X\<close> ai show ?thesis
        by (auto simp: refuted_by_def unknown_by_def Let_def)
    next
      case False
      with assms \<open>UseCrab X\<close> ai have "add_blocking_clauses s0 = (True, s')"
        by (auto simp: loop_turn_def Let_def split: prod.splits if_splits)
      with False \<open>UseCrab X\<close> ai show ?thesis
        by (auto simp: refuted_by_def Let_def)
    qed
  qed
qed

lemma main_loop_turn:
  "smt_solve X (m_smt_solver s) = TriTrue \<Longrightarrow>
     main_loop (Suc fuel) X n s =
       (case loop_turn X (s\<lparr>m_result := TriTrue\<rparr>) of
          Continue s2 \<Rightarrow> main_loop fuel X (n + 1) s2
        | Return res s2 \<Rightarrow> Some (Inr (res, s2))
        | Abort err \<Rightarrow> Some (Inl err))"
  by (simp add: Let_def)

lemma main_loop_exit:
  "smt_solve X (m_smt_solver s) \<noteq> TriTrue \<Longrightarrow>
     main_loop (Suc fuel) X n s =
       Some (Inr (smt_solve X (m_smt_solver s),
         if n = 0
         then s\<lparr>m_result := smt_solve X (m_smt_solver s),
                errs := errs s @
                  [''Program is trivially unsat: initial boolean abstraction was enough.'']\<rparr>
         else s\<lparr>m_result := smt_solve X (m_smt_solver s)\<rparr>))"
  by (simp add: Let_def)

lemma asserted_invariant:
  assumes "at_loop_head X s0 n s" and "m_blocking_clauses s0 = {||}"
  shows "fset (m_blocking_clauses s) \<subseteq> set (m_smt_solver s)"
  using assms
proof (induction rule: at_loop_head.induct)
  case (start abs_side)
  then show ?case by simp
next
  case (turn n s s')
  from loop_turn_Continue [OF turn.hyps(3)] obtain s1 where
    r: "refuted_by X (s\<lparr>m_result := TriTrue\<rparr>) s1 \<or> unknown_by X (s\<lparr>m_result := TriTrue\<rparr>) s1"
    and a: "add_blocking_clauses s1 = (True, s')"
    by blast
  from blocked_frame [OF r] add_blocking_clauses_eq [OF a] turn.IH [OF turn.prems]
  show ?case by auto
qed

lemma solve_from_loop_head:
  assumes "at_loop_head X s0 n s"
  shows "main_loop fuel X (of_nat n) s = Some r \<Longrightarrow> \<exists>fuel'. solve fuel' X s0 = Some r"
  using assms
proof (induction arbitrary: fuel rule: at_loop_head.induct)
  case (start abs_side)
  then have "solve fuel X s0 = Some r"
    by (simp add: solve_def)
  then show ?case ..
next
  case (turn n s s')
  from turn.hyps(2,3) turn.prems have "main_loop (Suc fuel) X (of_nat n) s = Some r"
    by (subst main_loop_turn) (simp_all add: add.commute)
  then show ?case by (rule turn.IH)
qed

lemma turn_dup:
  assumes solve: "smt_solve X (m_smt_solver s) = TriTrue"
    and r: "refuted_by X (s\<lparr>m_result := TriTrue\<rparr>) s1 \<or> unknown_by X (s\<lparr>m_result := TriTrue\<rparr>) s1"
    and dup: "blocking_clause (m_active_bool_lits s1) |\<in>| m_blocking_clauses s"
  shows "\<exists>s'. main_loop (Suc fuel) X n s = Some (Inr (Indeterminate, s')) \<and>
           loop_turn X (s\<lparr>m_result := TriTrue\<rparr>) = Return Indeterminate s' \<and>
           m_smt_solver s' = m_smt_solver s @ [blocking_clause (m_active_bool_lits s1)] \<and>
           m_blocking_clauses s' = m_blocking_clauses s"
proof -
  let ?bc = "blocking_clause (m_active_bool_lits s1)"
  obtain ok s2 where a: "add_blocking_clauses s1 = (ok, s2)"
    by (cases "add_blocking_clauses s1")
  from blocked_frame [OF r] have fr:
    "m_smt_solver s1 = m_smt_solver s" "m_blocking_clauses s1 = m_blocking_clauses s"
    by simp_all
  from fr add_blocking_clauses_eq [OF a] dup have "\<not> ok" by simp
  with loop_turn_blocked [OF r a] obtain msg where
    lt: "loop_turn X (s\<lparr>m_result := TriTrue\<rparr>) =
      Return Indeterminate (s2\<lparr>errs := errs s2 @ [msg]\<rparr>)"
    by auto
  have "main_loop (Suc fuel) X n s = Some (Inr (Indeterminate, s2\<lparr>errs := errs s2 @ [msg]\<rparr>))"
    by (subst main_loop_turn [OF solve]) (simp add: lt)
  moreover from fr add_blocking_clauses_eq [OF a] dup
  have "m_smt_solver (s2\<lparr>errs := errs s2 @ [msg]\<rparr>) = m_smt_solver s @ [?bc]"
    and "m_blocking_clauses (s2\<lparr>errs := errs s2 @ [msg]\<rparr>) = m_blocking_clauses s"
    by (auto simp: finsert_absorb)
  ultimately show ?thesis using lt by blast
qed

lemma turn_new:
  assumes r: "refuted_by X (s\<lparr>m_result := TriTrue\<rparr>) s1 \<or> unknown_by X (s\<lparr>m_result := TriTrue\<rparr>) s1"
    and new: "blocking_clause (m_active_bool_lits s1) |\<notin>| m_blocking_clauses s"
  shows "\<exists>s'. add_blocking_clauses s1 = (True, s') \<and>
           loop_turn X (s\<lparr>m_result := TriTrue\<rparr>) = Continue s' \<and>
           m_smt_solver s' = m_smt_solver s @ [blocking_clause (m_active_bool_lits s1)] \<and>
           m_blocking_clauses s' =
             finsert (blocking_clause (m_active_bool_lits s1)) (m_blocking_clauses s)"
proof -
  obtain ok s2 where a: "add_blocking_clauses s1 = (ok, s2)"
    by (cases "add_blocking_clauses s1")
  from blocked_frame [OF r] have fr:
    "m_smt_solver s1 = m_smt_solver s" "m_blocking_clauses s1 = m_blocking_clauses s"
    by simp_all
  from fr add_blocking_clauses_eq [OF a] new have ok: ok by simp
  with loop_turn_blocked [OF r a] have "loop_turn X (s\<lparr>m_result := TriTrue\<rparr>) = Continue s2"
    by simp
  with fr add_blocking_clauses_eq [OF a] ok a show ?thesis by simp
qed

text \<open>
  C2. Non-progress detection and monotone progress. Take a turn of the main loop of
  \<^verbatim>\<open>solve()\<close> (the primary solver has answered \<open>true\<close> at the loop head \<open>s\<close>) in which
  \<^verbatim>\<open>add_blocking_clauses()\<close> is called: the refinement reports an infeasible path, or
  the SMT refinement answers \<open>indeterminate\<close>. The blocking clause built from the active
  literals is asserted into the primary solver. If it is already in the set of blocking
  clauses, \<^verbatim>\<open>solve()\<close> returns \<open>indeterminate\<close> in this turn and the set is as it was.
  Otherwise the loop goes on, the clause is in the set, and the set has one element
  more. In every turn after which the loop goes on, the set has grown by one, and no
  turn goes on otherwise than through \<^verbatim>\<open>add_blocking_clauses()\<close>.
\<close>

theorem blocking_clause_progress:
  assumes head: "at_loop_head X s0 n s"
    and solve: "smt_solve X (m_smt_solver s) = TriTrue"
    and r: "refuted_by X (s\<lparr>m_result := TriTrue\<rparr>) s1 \<or> unknown_by X (s\<lparr>m_result := TriTrue\<rparr>) s1"
  shows "(blocking_clause (m_active_bool_lits s1) |\<in>| m_blocking_clauses s \<longrightarrow>
           (\<exists>s' fuel. main_loop 1 X (of_nat n) s = Some (Inr (Indeterminate, s')) \<and>
              loop_turn X (s\<lparr>m_result := TriTrue\<rparr>) = Return Indeterminate s' \<and>
              solve fuel X s0 = Some (Inr (Indeterminate, s')) \<and>
              m_smt_solver s' = m_smt_solver s @ [blocking_clause (m_active_bool_lits s1)] \<and>
              m_blocking_clauses s' = m_blocking_clauses s)) \<and>
         (blocking_clause (m_active_bool_lits s1) |\<notin>| m_blocking_clauses s \<longrightarrow>
           (\<exists>s'. loop_turn X (s\<lparr>m_result := TriTrue\<rparr>) = Continue s' \<and>
              at_loop_head X s0 (n + 1) s' \<and>
              m_smt_solver s' = m_smt_solver s @ [blocking_clause (m_active_bool_lits s1)] \<and>
              m_blocking_clauses s' =
                finsert (blocking_clause (m_active_bool_lits s1)) (m_blocking_clauses s) \<and>
              fcard (m_blocking_clauses s') = fcard (m_blocking_clauses s) + 1)) \<and>
         (\<forall>t t'. loop_turn X t = Continue t' \<longrightarrow>
            fcard (m_blocking_clauses t') = fcard (m_blocking_clauses t) + 1 \<and>
            (\<exists>t1. (refuted_by X t t1 \<or> unknown_by X t t1) \<and>
               blocking_clause (m_active_bool_lits t1) |\<notin>| m_blocking_clauses t \<and>
               m_blocking_clauses t' =
                 finsert (blocking_clause (m_active_bool_lits t1)) (m_blocking_clauses t) \<and>
               m_smt_solver t' = m_smt_solver t @ [blocking_clause (m_active_bool_lits t1)]))"
proof (intro conjI allI impI)
  assume dup: "blocking_clause (m_active_bool_lits s1) |\<in>| m_blocking_clauses s"
  from turn_dup [OF solve r dup, of 0 "of_nat n"] obtain s' where
    ml: "main_loop 1 X (of_nat n) s = Some (Inr (Indeterminate, s'))"
    and lt: "loop_turn X (s\<lparr>m_result := TriTrue\<rparr>) = Return Indeterminate s'"
    and p: "m_smt_solver s' = m_smt_solver s @ [blocking_clause (m_active_bool_lits s1)]"
    and b: "m_blocking_clauses s' = m_blocking_clauses s"
    by auto
  from solve_from_loop_head [OF head ml] obtain fuel where
    "solve fuel X s0 = Some (Inr (Indeterminate, s'))" ..
  with ml lt p b
  show "\<exists>s' fuel. main_loop 1 X (of_nat n) s = Some (Inr (Indeterminate, s')) \<and>
      loop_turn X (s\<lparr>m_result := TriTrue\<rparr>) = Return Indeterminate s' \<and>
      solve fuel X s0 = Some (Inr (Indeterminate, s')) \<and>
      m_smt_solver s' = m_smt_solver s @ [blocking_clause (m_active_bool_lits s1)] \<and>
      m_blocking_clauses s' = m_blocking_clauses s"
    by blast
next
  assume new: "blocking_clause (m_active_bool_lits s1) |\<notin>| m_blocking_clauses s"
  from turn_new [OF r new] obtain s' where
    lt: "loop_turn X (s\<lparr>m_result := TriTrue\<rparr>) = Continue s'"
    and p: "m_smt_solver s' = m_smt_solver s @ [blocking_clause (m_active_bool_lits s1)]"
    and b: "m_blocking_clauses s' =
      finsert (blocking_clause (m_active_bool_lits s1)) (m_blocking_clauses s)"
    by auto
  from head solve lt have "at_loop_head X s0 (n + 1) s'"
    by (rule at_loop_head.turn)
  moreover from b new have "fcard (m_blocking_clauses s') = fcard (m_blocking_clauses s) + 1"
    by (simp add: fcard_finsert_disjoint)
  ultimately
  show "\<exists>s'. loop_turn X (s\<lparr>m_result := TriTrue\<rparr>) = Continue s' \<and>
      at_loop_head X s0 (n + 1) s' \<and>
      m_smt_solver s' = m_smt_solver s @ [blocking_clause (m_active_bool_lits s1)] \<and>
      m_blocking_clauses s' =
        finsert (blocking_clause (m_active_bool_lits s1)) (m_blocking_clauses s) \<and>
      fcard (m_blocking_clauses s') = fcard (m_blocking_clauses s) + 1"
    using lt p b by blast
next
  fix t t'
  assume "loop_turn X t = Continue t'"
  from loop_turn_Continue [OF this] obtain t1 where
    r: "refuted_by X t t1 \<or> unknown_by X t t1" and a: "add_blocking_clauses t1 = (True, t')"
    by blast
  from blocked_frame [OF r] add_blocking_clauses_eq [OF a]
  show "fcard (m_blocking_clauses t') = fcard (m_blocking_clauses t) + 1"
    by (simp add: fcard_finsert_disjoint)
  from blocked_frame [OF r] add_blocking_clauses_eq [OF a] r
  show "\<exists>t1. (refuted_by X t t1 \<or> unknown_by X t t1) \<and>
      blocking_clause (m_active_bool_lits t1) |\<notin>| m_blocking_clauses t \<and>
      m_blocking_clauses t' =
        finsert (blocking_clause (m_active_bool_lits t1)) (m_blocking_clauses t) \<and>
      m_smt_solver t' = m_smt_solver t @ [blocking_clause (m_active_bool_lits t1)]"
    by auto
qed

text \<open>
  C10. The primary solver on the non-progress path. \<^verbatim>\<open>solve()\<close> runs on an engine
  whose set of blocking clauses was empty. In a turn in which
  \<^verbatim>\<open>add_blocking_clauses()\<close> is called (the refinement reports an infeasible path, or
  the SMT refinement answers \<open>indeterminate\<close>) and the blocking clause is already in the
  set, \<^verbatim>\<open>solve()\<close> returns \<open>indeterminate\<close>, and the primary solver is not as it was
  at the head of the turn: the clause, which it held already, has been asserted again.
  The call itself asserts the clause whether or not it is in the set.
\<close>

theorem duplicate_asserted_twice:
  assumes head: "at_loop_head X s0 n s"
    and fresh: "m_blocking_clauses s0 = {||}"
    and solve: "smt_solve X (m_smt_solver s) = TriTrue"
    and r: "refuted_by X (s\<lparr>m_result := TriTrue\<rparr>) s1 \<or> unknown_by X (s\<lparr>m_result := TriTrue\<rparr>) s1"
    and dup: "blocking_clause (m_active_bool_lits s1) |\<in>| m_blocking_clauses s"
  shows "(\<exists>s' fuel.
           solve fuel X s0 = Some (Inr (Indeterminate, s')) \<and>
           loop_turn X (s\<lparr>m_result := TriTrue\<rparr>) = Return Indeterminate s' \<and>
           m_smt_solver s' = m_smt_solver s @ [blocking_clause (m_active_bool_lits s1)] \<and>
           m_smt_solver s' \<noteq> m_smt_solver s \<and>
           blocking_clause (m_active_bool_lits s1) \<in> set (m_smt_solver s) \<and>
           2 \<le> count_list (m_smt_solver s') (blocking_clause (m_active_bool_lits s1)) \<and>
           m_blocking_clauses s' = m_blocking_clauses s) \<and>
         (\<exists>s2. add_blocking_clauses s1 = (False, s2) \<and>
            m_smt_solver s2 = m_smt_solver s1 @ [blocking_clause (m_active_bool_lits s1)])"
proof
  let ?bc = "blocking_clause (m_active_bool_lits s1)"
  from turn_dup [OF solve r dup, of 0 "of_nat n"] obtain s' where
    ml: "main_loop 1 X (of_nat n) s = Some (Inr (Indeterminate, s'))"
    and lt: "loop_turn X (s\<lparr>m_result := TriTrue\<rparr>) = Return Indeterminate s'"
    and p: "m_smt_solver s' = m_smt_solver s @ [?bc]"
    and b: "m_blocking_clauses s' = m_blocking_clauses s"
    by auto
  from solve_from_loop_head [OF head ml] obtain fuel where
    sv: "solve fuel X s0 = Some (Inr (Indeterminate, s'))" ..
  from asserted_invariant [OF head fresh] dup have mem: "?bc \<in> set (m_smt_solver s)"
    by auto
  then have "count_list (m_smt_solver s) ?bc \<noteq> 0"
    by (simp add: count_list_0_iff)
  with p have "2 \<le> count_list (m_smt_solver s') ?bc"
    by simp
  with sv lt p b mem
  show "\<exists>s' fuel.
      solve fuel X s0 = Some (Inr (Indeterminate, s')) \<and>
      loop_turn X (s\<lparr>m_result := TriTrue\<rparr>) = Return Indeterminate s' \<and>
      m_smt_solver s' = m_smt_solver s @ [?bc] \<and>
      m_smt_solver s' \<noteq> m_smt_solver s \<and>
      ?bc \<in> set (m_smt_solver s) \<and>
      2 \<le> count_list (m_smt_solver s') ?bc \<and>
      m_blocking_clauses s' = m_blocking_clauses s"
    by auto
  obtain ok s2 where a: "add_blocking_clauses s1 = (ok, s2)"
    by (cases "add_blocking_clauses s1")
  from blocked_frame [OF r] add_blocking_clauses_eq [OF a] dup have "\<not> ok"
    by simp
  with a add_blocking_clauses_eq [OF a]
  show "\<exists>s2. add_blocking_clauses s1 = (False, s2) \<and> m_smt_solver s2 = m_smt_solver s1 @ [?bc]"
    by auto
qed

text \<open>
  C8. Empty active set. \<^verbatim>\<open>solve()\<close> runs on an engine whose set of blocking clauses
  was empty, with a solver that answers \<open>false\<close> for every context that holds the
  clause \<open>FALSE\<close>. In a turn in which \<^verbatim>\<open>add_blocking_clauses()\<close> is called (the
  refinement reports an infeasible path, or the SMT refinement answers
  \<open>indeterminate\<close>) and finds no active literal, it writes its warning, asserts \<open>FALSE\<close>
  into the primary solver and returns \<open>true\<close>; the loop goes on, the next answer of the
  primary solver is \<open>false\<close>, and \<^verbatim>\<open>solve()\<close> returns \<open>false\<close>. The engine is then as
  \<^verbatim>\<open>add_blocking_clauses()\<close> left it, with the result \<open>false\<close>, and with one more line
  on the error stream if the counter of turns has wrapped to zero.
\<close>

theorem empty_active_set_unsat:
  assumes head: "at_loop_head X s0 n s"
    and fresh: "m_blocking_clauses s0 = {||}"
    and solve: "smt_solve X (m_smt_solver s) = TriTrue"
    and r: "refuted_by X (s\<lparr>m_result := TriTrue\<rparr>) s1 \<or> unknown_by X (s\<lparr>m_result := TriTrue\<rparr>) s1"
    and empty: "m_active_bool_lits s1 = []"
    and sound: "\<forall>es. FALSE \<in> set es \<longrightarrow> smt_solve X es = TriFalse"
  shows "\<exists>s2 fuel.
           add_blocking_clauses s1 = (True, s2) \<and>
           errs s2 = errs s1 @ [''No found active boolean literals. Trivially unsat ... ''] \<and>
           m_smt_solver s2 = m_smt_solver s @ [FALSE] \<and>
           loop_turn X (s\<lparr>m_result := TriTrue\<rparr>) = Continue s2 \<and>
           smt_solve X (m_smt_solver s2) = TriFalse \<and>
           solve fuel X s0 =
             Some (Inr (TriFalse,
               if (of_nat (n + 1) :: 32 word) = 0
               then s2\<lparr>m_result := TriFalse,
                      errs := errs s2 @
                        [''Program is trivially unsat: initial boolean abstraction was enough.'']\<rparr>
               else s2\<lparr>m_result := TriFalse\<rparr>))"
proof -
  from empty have bc: "blocking_clause (m_active_bool_lits s1) = FALSE"
    by (simp add: blocking_clause_def)
  have new: "blocking_clause (m_active_bool_lits s1) |\<notin>| m_blocking_clauses s"
  proof
    assume "blocking_clause (m_active_bool_lits s1) |\<in>| m_blocking_clauses s"
    with asserted_invariant [OF head fresh] bc have "FALSE \<in> set (m_smt_solver s)"
      by auto
    with sound solve show False by simp
  qed
  from turn_new [OF r new] bc obtain s2 where
    a: "add_blocking_clauses s1 = (True, s2)"
    and lt: "loop_turn X (s\<lparr>m_result := TriTrue\<rparr>) = Continue s2"
    and p: "m_smt_solver s2 = m_smt_solver s @ [FALSE]"
    by auto
  from p sound have unsat: "smt_solve X (m_smt_solver s2) = TriFalse"
    by simp
  from head solve lt have head2: "at_loop_head X s0 (n + 1) s2"
    by (rule at_loop_head.turn)
  let ?end = "if (of_nat (n + 1) :: 32 word) = 0
      then s2\<lparr>m_result := TriFalse,
             errs := errs s2 @
               [''Program is trivially unsat: initial boolean abstraction was enough.'']\<rparr>
      else s2\<lparr>m_result := TriFalse\<rparr>"
  have "main_loop (Suc 0) X (of_nat (n + 1)) s2 = Some (Inr (TriFalse, ?end))"
    using main_loop_exit [of X s2 0 "of_nat (n + 1)"] unsat by simp
  from solve_from_loop_head [OF head2 this] obtain fuel where
    "solve fuel X s0 = Some (Inr (TriFalse, ?end))" ..
  with a lt p unsat add_blocking_clauses_warns [OF empty a] show ?thesis by blast
qed

lemma single_block_abs: "bool_abstraction_vec (encode_side single_block_program) [] = Inr []"
  unfolding single_block_program_def by code_simp

lemma single_block_head:
  "at_loop_head single_block_program new_engine 0
     (new_engine\<lparr>m_side := encode_side single_block_program, m_smt_solver := []\<rparr>)"
  using single_block_abs by (rule at_loop_head.start)

lemma single_block_refuted:
  "refuted_by single_block_program
     (new_engine\<lparr>m_side := encode_side single_block_program, m_smt_solver := [],
        m_result := TriTrue\<rparr>)
     (new_engine\<lparr>m_side := encode_side single_block_program, m_smt_solver := [],
        m_result := TriTrue, m_active_bool_lits := []\<rparr>)"
  by (simp add: refuted_by_def single_block_program_def path_encoding_and_solve_with_smt_def
      sort_unique_def muc_run_def)

theorem empty_active_set_unsat_witness:
  "at_loop_head single_block_program new_engine 0
     (new_engine\<lparr>m_side := encode_side single_block_program, m_smt_solver := []\<rparr>) \<and>
   smt_solve single_block_program [] = TriTrue \<and>
   (\<exists>s2 fuel.
      add_blocking_clauses
        (new_engine\<lparr>m_side := encode_side single_block_program, m_smt_solver := [],
           m_result := TriTrue, m_active_bool_lits := []\<rparr>) = (True, s2) \<and>
      m_smt_solver s2 = [FALSE] \<and>
      solve fuel single_block_program new_engine =
        Some (Inr (TriFalse, s2\<lparr>m_result := TriFalse\<rparr>)))"
proof -
  let ?s = "new_engine\<lparr>m_side := encode_side single_block_program, m_smt_solver := []\<rparr>"
  let ?s1 = "new_engine\<lparr>m_side := encode_side single_block_program, m_smt_solver := [],
           m_result := TriTrue, m_active_bool_lits := []\<rparr>"
  have fresh: "m_blocking_clauses (new_engine :: unit engine) = {||}"
    by (simp add: new_engine_def)
  have solve: "smt_solve single_block_program (m_smt_solver ?s) = TriTrue"
    by (simp add: single_block_program_def)
  have r: "refuted_by single_block_program (?s\<lparr>m_result := TriTrue\<rparr>) ?s1 \<or>
      unknown_by single_block_program (?s\<lparr>m_result := TriTrue\<rparr>) ?s1"
    using single_block_refuted by simp
  have empty: "m_active_bool_lits ?s1 = []" by simp
  have sound: "\<forall>es. FALSE \<in> set es \<longrightarrow> smt_solve single_block_program es = TriFalse"
    by (auto simp: single_block_program_def)
  from empty_active_set_unsat [OF single_block_head fresh solve r empty sound]
    single_block_head solve
  show ?thesis by auto
qed

text \<open>
  The same program with a solver that cannot decide its constraint: the refinement of
  the first turn answers \<open>indeterminate\<close>, \<^verbatim>\<open>add_blocking_clauses()\<close> finds no active
  literal and asserts \<open>FALSE\<close>, and \<^verbatim>\<open>solve()\<close> returns \<open>false\<close>.
\<close>

lemma undecided_abs:
  "bool_abstraction_vec [OtherOp ''lt'' [OtherOp ''x'' [], OtherOp ''y'' []]] [] = Inr []"
  by code_simp

lemma undecided_unknown:
  "unknown_by undecided_program
     (new_engine\<lparr>m_side := encode_side undecided_program, m_smt_solver := [],
        m_result := TriTrue\<rparr>)
     (new_engine\<lparr>m_side := encode_side undecided_program, m_smt_solver := [],
        m_result := TriTrue\<rparr>)"
  by (simp add: unknown_by_def undecided_program_def path_encoding_and_solve_with_smt_def
      sort_unique_def)

lemma undecided_solve:
  "solve 2 undecided_program new_engine =
     Some (Inr (TriFalse,
       new_engine\<lparr>m_side := encode_side undecided_program,
         m_smt_solver := [FALSE], m_result := TriFalse,
         m_blocking_clauses := {|FALSE|},
         errs := [''No found active boolean literals. Trivially unsat ... '']\<rparr>))"
proof -
  have "solve (Suc (Suc 0)) undecided_program new_engine =
     Some (Inr (TriFalse,
       new_engine\<lparr>m_side := encode_side undecided_program,
         m_smt_solver := [FALSE], m_result := TriFalse,
         m_blocking_clauses := {|FALSE|},
         errs := [''No found active boolean literals. Trivially unsat ... '']\<rparr>))"
    by (simp add: solve_def undecided_abs Let_def loop_turn_def smt_turn_def tribool_test
        path_encoding_and_solve_with_smt_def sort_unique_def add_blocking_clauses_def
        new_engine_def undecided_program_def)
  then show ?thesis by (simp add: numeral_2_eq_2)
qed

lemma mislabelled_abs:
  "bool_abstraction_vec (encode_side mislabelled_program) [] = Inr [BoolConst (BasicBlock 0)]"
  unfolding mislabelled_program_def by code_simp

lemma mislabelled_at_head0: "at_loop_head mislabelled_program new_engine 0 mislabelled_head0"
  unfolding mislabelled_head0_def using mislabelled_abs by (rule at_loop_head.start)

lemma mislabelled_refuted0:
  "refuted_by mislabelled_program (mislabelled_head0\<lparr>m_result := TriTrue\<rparr>)
     (mislabelled_head0\<lparr>m_result := TriTrue, m_active_bool_lits := [BoolConst (BasicBlock 1)]\<rparr>)"
  by (simp add: refuted_by_def mislabelled_program_def mislabelled_head0_def
      path_encoding_and_solve_with_smt_def sort_unique_def muc_run_def)

lemma mislabelled_refuted1:
  "refuted_by mislabelled_program (mislabelled_head1\<lparr>m_result := TriTrue\<rparr>)
     (mislabelled_head1\<lparr>m_result := TriTrue, m_active_bool_lits := [BoolConst (BasicBlock 1)]\<rparr>)"
  by (simp add: refuted_by_def mislabelled_program_def mislabelled_head1_def mislabelled_head0_def
      path_encoding_and_solve_with_smt_def sort_unique_def muc_run_def)

lemma mislabelled_solve0: "smt_solve mislabelled_program (m_smt_solver mislabelled_head0) = TriTrue"
  by (simp add: mislabelled_program_def mislabelled_head0_def)

lemma mislabelled_solve1: "smt_solve mislabelled_program (m_smt_solver mislabelled_head1) = TriTrue"
  by (simp add: mislabelled_program_def mislabelled_head1_def)

lemma mislabelled_turn0:
  "loop_turn mislabelled_program (mislabelled_head0\<lparr>m_result := TriTrue\<rparr>) =
     Continue mislabelled_head1"
  by (simp add: loop_turn_def smt_turn_def tribool_test mislabelled_program_def
      mislabelled_head0_def mislabelled_head1_def path_encoding_and_solve_with_smt_def
      sort_unique_def muc_run_def add_blocking_clauses_def lneg_def land_list_def new_engine_def)

lemma mislabelled_at_head1: "at_loop_head mislabelled_program new_engine 1 mislabelled_head1"
  using at_loop_head.turn [OF mislabelled_at_head0 mislabelled_solve0 mislabelled_turn0]
  by simp

lemma mislabelled_clause:
  "blocking_clause [BoolConst (BasicBlock 1)] = NEG (BoolConst (BasicBlock 1))"
  by (simp add: blocking_clause_def lneg_def land_list_def)

theorem blocking_clause_progress_witness:
  "at_loop_head mislabelled_program new_engine 0 mislabelled_head0 \<and>
   smt_solve mislabelled_program (m_smt_solver mislabelled_head0) = TriTrue \<and>
   refuted_by mislabelled_program (mislabelled_head0\<lparr>m_result := TriTrue\<rparr>)
     (mislabelled_head0\<lparr>m_result := TriTrue, m_active_bool_lits := [BoolConst (BasicBlock 1)]\<rparr>) \<and>
   NEG (BoolConst (BasicBlock 1)) |\<notin>| m_blocking_clauses mislabelled_head0 \<and>
   loop_turn mislabelled_program (mislabelled_head0\<lparr>m_result := TriTrue\<rparr>) =
     Continue mislabelled_head1 \<and>
   at_loop_head mislabelled_program new_engine 1 mislabelled_head1 \<and>
   fcard (m_blocking_clauses mislabelled_head1) = fcard (m_blocking_clauses mislabelled_head0) + 1"
proof -
  have new: "blocking_clause (m_active_bool_lits
      (mislabelled_head0\<lparr>m_result := TriTrue,
         m_active_bool_lits := [BoolConst (BasicBlock 1)]\<rparr>)) |\<notin>|
      m_blocking_clauses mislabelled_head0"
    by (simp add: mislabelled_head0_def new_engine_def)
  note bc = mislabelled_clause
  have r: "refuted_by mislabelled_program (mislabelled_head0\<lparr>m_result := TriTrue\<rparr>)
       (mislabelled_head0\<lparr>m_result := TriTrue, m_active_bool_lits := [BoolConst (BasicBlock 1)]\<rparr>) \<or>
     unknown_by mislabelled_program (mislabelled_head0\<lparr>m_result := TriTrue\<rparr>)
       (mislabelled_head0\<lparr>m_result := TriTrue, m_active_bool_lits := [BoolConst (BasicBlock 1)]\<rparr>)"
    using mislabelled_refuted0 by simp
  from blocking_clause_progress [OF mislabelled_at_head0 mislabelled_solve0 r] new
  obtain s' where lt: "loop_turn mislabelled_program (mislabelled_head0\<lparr>m_result := TriTrue\<rparr>) =
      Continue s'"
    and h: "at_loop_head mislabelled_program new_engine (0 + 1) s'"
    and c: "fcard (m_blocking_clauses s') = fcard (m_blocking_clauses mislabelled_head0) + 1"
    by blast
  from lt mislabelled_turn0 have "s' = mislabelled_head1" by simp
  with lt h c new bc mislabelled_at_head0 mislabelled_solve0 mislabelled_refuted0
  show ?thesis by simp
qed

theorem duplicate_asserted_twice_witness:
  "at_loop_head mislabelled_program new_engine 1 mislabelled_head1 \<and>
   m_blocking_clauses (new_engine :: unit engine) = {||} \<and>
   smt_solve mislabelled_program (m_smt_solver mislabelled_head1) = TriTrue \<and>
   refuted_by mislabelled_program (mislabelled_head1\<lparr>m_result := TriTrue\<rparr>)
     (mislabelled_head1\<lparr>m_result := TriTrue, m_active_bool_lits := [BoolConst (BasicBlock 1)]\<rparr>) \<and>
   NEG (BoolConst (BasicBlock 1)) |\<in>| m_blocking_clauses mislabelled_head1 \<and>
   (\<exists>s' fuel.
      solve fuel mislabelled_program new_engine = Some (Inr (Indeterminate, s')) \<and>
      m_smt_solver s' =
        [BoolConst (BasicBlock 0), NEG (BoolConst (BasicBlock 1)),
         NEG (BoolConst (BasicBlock 1))] \<and>
      2 \<le> count_list (m_smt_solver s') (NEG (BoolConst (BasicBlock 1))))"
proof -
  have fresh: "m_blocking_clauses (new_engine :: unit engine) = {||}"
    by (simp add: new_engine_def)
  have dup: "blocking_clause (m_active_bool_lits
      (mislabelled_head1\<lparr>m_result := TriTrue,
         m_active_bool_lits := [BoolConst (BasicBlock 1)]\<rparr>)) |\<in>|
      m_blocking_clauses mislabelled_head1"
    by (simp add: blocking_clause_def lneg_def land_list_def mislabelled_head1_def)
  have p: "m_smt_solver mislabelled_head1 =
      [BoolConst (BasicBlock 0), NEG (BoolConst (BasicBlock 1))]"
    by (simp add: mislabelled_head1_def)
  have r: "refuted_by mislabelled_program (mislabelled_head1\<lparr>m_result := TriTrue\<rparr>)
       (mislabelled_head1\<lparr>m_result := TriTrue, m_active_bool_lits := [BoolConst (BasicBlock 1)]\<rparr>) \<or>
     unknown_by mislabelled_program (mislabelled_head1\<lparr>m_result := TriTrue\<rparr>)
       (mislabelled_head1\<lparr>m_result := TriTrue, m_active_bool_lits := [BoolConst (BasicBlock 1)]\<rparr>)"
    using mislabelled_refuted1 by simp
  from duplicate_asserted_twice [OF mislabelled_at_head1 fresh mislabelled_solve1 r dup]
    mislabelled_at_head1 fresh mislabelled_solve1 mislabelled_refuted1 dup
  show ?thesis
    by (auto simp: blocking_clause_def lneg_def land_list_def p)
qed

section \<open>Properties of the edge predicates\<close>









section \<open>Properties of the minimal unsatisfiable cores\<close>

lemma dp_decides: "decision_procedure m_solver \<Longrightarrow> m_solver es \<noteq> TriTrue \<Longrightarrow> m_solver es = TriFalse"
  by (cases "m_solver es") (auto simp: decision_procedure_def)

lemma dp_sat_mono:
  "decision_procedure m_solver \<Longrightarrow> set xs \<subseteq> set ys \<Longrightarrow> m_solver ys = TriTrue \<Longrightarrow> m_solver xs = TriTrue"
  unfolding decision_procedure_def by blast

lemma dp_unsat_mono:
  assumes "decision_procedure m_solver" and "set xs \<subseteq> set ys" and "m_solver xs = TriFalse"
  shows "m_solver ys = TriFalse"
proof (rule dp_decides [OF assms(1)])
  show "m_solver ys \<noteq> TriTrue"
  proof
    assume "m_solver ys = TriTrue"
    from dp_sat_mono [OF assms(1,2) this] assms(3) show False by simp
  qed
qed

lemma mset_remove_nth:
  assumes k: "k < length xs"
  shows "mset (remove_nth k xs) = mset xs - {#xs ! k#}"
proof -
  from id_take_nth_drop [OF k]
  have "mset xs = mset (take k xs @ xs ! k # drop (Suc k) xs)"
    by (rule arg_cong)
  also have "\<dots> = mset (take k xs @ drop (Suc k) xs) + {#xs ! k#}"
    by simp
  finally show ?thesis
    by (simp add: remove_nth_def)
qed

lemma mset_butlast_last:
  assumes "out \<noteq> []"
  shows "mset out = mset (butlast out) + {#last out#}"
proof -
  from append_butlast_last_id [OF assms]
  have "mset (butlast out @ [last out]) = mset out"
    by (rule arg_cong)
  then show ?thesis by simp
qed

lemma mset_swap_pop:
  assumes "i < length out"
  shows "mset (butlast (out[i := last out])) = mset out - {#out ! i#}"
proof (cases "i = length out - 1")
  case True
  from assms have ne: "out \<noteq> []" by auto
  with True have "last out = out ! i"
    by (simp add: last_conv_nth)
  then have "out[i := last out] = out"
    by simp
  moreover from True assms have "butlast out = remove_nth i out"
    by (simp add: remove_nth_def butlast_conv_take)
  ultimately show ?thesis
    using mset_remove_nth [OF assms] by simp
next
  case False
  with assms have i: "i < length (butlast out)" by simp
  from assms have ne: "out \<noteq> []" by auto
  from i have "butlast (out[i := last out]) = (butlast out)[i := last out]"
    by (simp add: butlast_list_update)
  with i have "mset (butlast (out[i := last out])) =
      mset (butlast out) - {#butlast out ! i#} + {#last out#}"
    by (simp add: mset_update)
  moreover have bi: "butlast out ! i = out ! i"
    using i by (simp add: nth_butlast)
  moreover from i have "butlast out ! i \<in># mset (butlast out)"
    by simp
  ultimately show ?thesis
    by (simp add: mset_butlast_last [OF ne])
qed


lemma set_remove_nth_swap:
  assumes "i < length out"
  shows "set (butlast (out[i := last out])) = set (remove_nth i out)"
proof -
  from mset_swap_pop [OF assms] mset_remove_nth [OF assms]
  have "mset (butlast (out[i := last out])) = mset (remove_nth i out)" by simp
  then show ?thesis by (rule mset_eq_setD)
qed

lemma swap_pop_remove_subset:
  assumes "k < i" and "i < length out"
  shows "set (remove_nth k (butlast (out[i := last out]))) \<subseteq> set (remove_nth k out)"
proof -
  let ?T = "butlast (out[i := last out])"
  from assms have kT: "k < length ?T" by simp
  from assms have "?T ! k = out ! k"
    by (simp add: nth_butlast)
  with mset_remove_nth [OF kT] mset_swap_pop [OF assms(2)]
  have "mset (remove_nth k ?T) = mset out - {#out ! i#} - {#out ! k#}"
    by simp
  also have "\<dots> = mset out - {#out ! k#} - {#out ! i#}"
    by (simp add: add_mset_commute)
  also have "\<dots> \<subseteq># mset out - {#out ! k#}"
    by (rule diff_subset_eq_self)
  also from assms have "mset out - {#out ! k#} = mset (remove_nth k out)"
    by (simp add: mset_remove_nth)
  finally have "mset (remove_nth k ?T) \<subseteq># mset (remove_nth k out)" .
  then have "set_mset (mset (remove_nth k ?T)) \<subseteq> set_mset (mset (remove_nth k out))"
    by (rule set_mset_mono)
  then show ?thesis by simp
qed

lemma naive_loop_correct:
  "decision_procedure m_solver \<Longrightarrow> m_solver (asm @ out) = TriFalse \<Longrightarrow>
   (\<forall>k<i. m_solver (asm @ remove_nth k out) = TriTrue) \<Longrightarrow> i \<le> length out \<Longrightarrow>
   \<exists>C. naive_loop m_solver asm out i = Inr C \<and> mset C \<subseteq># mset out \<and>
       m_solver (asm @ C) = TriFalse \<and>
       (\<forall>k<length C. m_solver (asm @ remove_nth k C) = TriTrue)"
proof (induction m_solver asm out i rule: naive_loop.induct)
  case (1 m_solver asm out i)
  note dp = "1.prems"(1) and unsat = "1.prems"(2) and tested = "1.prems"(3)
  show ?case
  proof (cases "i < length out")
    case False
    with "1.prems"(4) have "i = length out" by simp
    with tested unsat show ?thesis
      by (subst naive_loop.simps) auto
  next
    case True
    let ?T = "butlast (out[i := last out])"
    show ?thesis
    proof (cases "check m_solver ?T asm")
      case TriTrue
      have restore: "(out[i := last out])[i := out ! i] = out"
        by simp
      from TriTrue have "m_solver (asm @ ?T) = TriTrue"
        by (simp add: check_def)
      moreover from set_remove_nth_swap [OF True]
      have "set (asm @ remove_nth i out) \<subseteq> set (asm @ ?T)"
        by auto
      ultimately have "m_solver (asm @ remove_nth i out) = TriTrue"
        using dp by (blast intro: dp_sat_mono)
      with tested have tested': "\<forall>k<i + 1. m_solver (asm @ remove_nth k out) = TriTrue"
        by (auto simp: less_Suc_eq)
      from True have le: "i + 1 \<le> length out" by simp
      from "1.IH"(1) [OF True refl refl TriTrue dp] unsat tested' le restore
      obtain C where "naive_loop m_solver asm out (i + 1) = Inr C"
        and "mset C \<subseteq># mset out" and "m_solver (asm @ C) = TriFalse"
        and "\<forall>k<length C. m_solver (asm @ remove_nth k C) = TriTrue"
        by auto
      moreover from True TriTrue restore
      have "naive_loop m_solver asm out i = naive_loop m_solver asm out (i + 1)"
        by (subst naive_loop.simps) (simp add: Let_def)
      ultimately show ?thesis by auto
    next
      case TriFalse
      then have unsat': "m_solver (asm @ ?T) = TriFalse"
        by (simp add: check_def)
      have tested': "\<forall>k<i. m_solver (asm @ remove_nth k ?T) = TriTrue"
      proof (intro allI impI)
        fix k assume k: "k < i"
        with tested have "m_solver (asm @ remove_nth k out) = TriTrue" by simp
        moreover from swap_pop_remove_subset [OF k True]
        have "set (asm @ remove_nth k ?T) \<subseteq> set (asm @ remove_nth k out)"
          by auto
        ultimately show "m_solver (asm @ remove_nth k ?T) = TriTrue"
          using dp by (blast intro: dp_sat_mono)
      qed
      from True have le: "i \<le> length ?T" by simp
      from "1.IH"(2) [OF True refl refl TriFalse dp unsat' tested' le]
      obtain C where "naive_loop m_solver asm ?T i = Inr C"
        and "mset C \<subseteq># mset ?T" and "m_solver (asm @ C) = TriFalse"
        and "\<forall>k<length C. m_solver (asm @ remove_nth k C) = TriTrue"
        by auto
      moreover from True TriFalse
      have "naive_loop m_solver asm out i = naive_loop m_solver asm ?T i"
        by (subst naive_loop.simps) (simp add: Let_def)
      moreover have "mset ?T \<subseteq># mset out"
        by (simp add: mset_swap_pop [OF True])
      ultimately show ?thesis
        by (auto intro: subset_mset.order_trans)
    next
      case Indeterminate
      with dp show ?thesis
        by (simp add: check_def decision_procedure_def)
    qed
  qed
qed


lemma dp_set_cong:
  assumes "decision_procedure m_solver" and "set xs = set ys"
  shows "m_solver xs = m_solver ys"
proof (cases "m_solver ys")
  case TriTrue
  with assms show ?thesis by (simp add: dp_sat_mono [of m_solver xs ys])
next
  case TriFalse
  with assms show ?thesis by (simp add: dp_unsat_mono [of m_solver ys xs])
next
  case Indeterminate
  with assms show ?thesis by (simp add: decision_procedure_def)
qed

lemma remove1_as_remove_nth:
  assumes "c \<in> set C"
  shows "\<exists>k<length C. set (remove1 c C) = set (remove_nth k C)"
proof -
  from assms obtain k where k: "k < length C" "C ! k = c"
    by (auto simp: in_set_conv_nth)
  then have "mset (remove1 c C) = mset (remove_nth k C)"
    by (simp add: mset_remove_nth)
  then have "set (remove1 c C) = set (remove_nth k C)"
    by (rule mset_eq_setD)
  with k show ?thesis by blast
qed

lemma naive_run_correct:
  assumes dp: "decision_procedure m_solver" and unsat: "m_solver (asm @ f) = TriFalse"
  shows "\<exists>C. naive_run m_solver f asm [] = Inr C \<and> mset C \<subseteq># mset f \<and>
           m_solver (asm @ C) = TriFalse \<and>
           (\<forall>c\<in>set C. m_solver (asm @ remove1 c C) = TriTrue)"
proof -
  from naive_loop_correct [OF dp unsat, of 0]
  obtain C where run: "naive_loop m_solver asm f 0 = Inr C"
    and sub: "mset C \<subseteq># mset f" and u: "m_solver (asm @ C) = TriFalse"
    and min: "\<forall>k<length C. m_solver (asm @ remove_nth k C) = TriTrue"
    by auto
  have "m_solver (asm @ remove1 c C) = TriTrue" if "c \<in> set C" for c
  proof -
    from remove1_as_remove_nth [OF that] obtain k where
      k: "k < length C" "set (remove1 c C) = set (remove_nth k C)"
      by blast
    then have "set (asm @ remove1 c C) = set (asm @ remove_nth k C)"
      by simp
    from dp_set_cong [OF dp this] min k show ?thesis by simp
  qed
  with run sub u unsat show ?thesis
    by (simp add: naive_run_def check_def)
qed


lemma run_with_assumptions_correct:
  "decision_procedure m_solver \<Longrightarrow> m_solver (asm @ f) = TriFalse \<Longrightarrow> set core \<subseteq> set asm \<Longrightarrow>
   (length f = 1 \<longrightarrow> m_solver asm = TriTrue) \<Longrightarrow>
   \<exists>D. run_with_assumptions m_solver f asm core = Inr (core @ D) \<and> mset D \<subseteq># mset f \<and>
       m_solver (asm @ D) = TriFalse \<and>
       (\<forall>d\<in>set D. m_solver (asm @ remove1 d D) = TriTrue)"
proof (induction m_solver f asm core rule: run_with_assumptions.induct)
  case (1 m_solver f asm core)
  note dp = "1.prems"(1) and unsat = "1.prems"(2) and core = "1.prems"(3) and one = "1.prems"(4)
  from unsat have nchk: "check m_solver f asm \<noteq> TriTrue"
    by (simp add: check_def)
  show ?case
  proof (cases "length f \<le> threshold")
    case True
    note small = this
    show ?thesis
    proof (cases "length f = 0")
      case True
      with nchk small unsat show ?thesis
        by (subst run_with_assumptions.simps) simp
    next
      case False
      note nonempty = this
      show ?thesis
      proof (cases "length f = 1")
        case True
        then obtain c where f: "f = [c]"
          by (cases f) auto
        with one have "m_solver (asm @ remove1 c f) = TriTrue" by simp
        with nchk small True unsat f show ?thesis
          by (subst run_with_assumptions.simps) simp
      next
        case False
        from naive_run_correct [OF dp unsat] obtain C where
          "naive_run m_solver f asm [] = Inr C" "mset C \<subseteq># mset f"
          "m_solver (asm @ C) = TriFalse"
          "\<forall>c\<in>set C. m_solver (asm @ remove1 c C) = TriTrue"
          by blast
        with nchk small nonempty False show ?thesis
          by (subst run_with_assumptions.simps) simp
      qed
    qed
  next
    case False
    note big = this
    let ?A = "take (length f div 2) f" and ?B = "drop (length f div 2) f"
    have f: "f = ?A @ ?B" by simp
    from big have lenA: "length ?A \<noteq> 1" and lenB: "length ?B \<noteq> 1"
      by (auto simp: threshold_def)
    have subA: "mset ?A \<subseteq># mset f" and subB: "mset ?B \<subseteq># mset f"
      by (metis f mset_append mset_subset_eq_add_left, metis f mset_append mset_subset_eq_add_right)
    show ?thesis
    proof (cases "check m_solver ?A asm")
      case TriFalse
      then have uA: "m_solver (asm @ ?A) = TriFalse" by (simp add: check_def)
      from "1.IH"(4) [OF nchk big refl refl TriFalse dp uA core] lenA
      obtain D where "run_with_assumptions m_solver ?A asm core = Inr (core @ D)"
        and "mset D \<subseteq># mset ?A" and "m_solver (asm @ D) = TriFalse"
        and "\<forall>d\<in>set D. m_solver (asm @ remove1 d D) = TriTrue"
        by auto
      moreover from nchk big TriFalse
      have "run_with_assumptions m_solver f asm core = run_with_assumptions m_solver ?A asm core"
        by (subst run_with_assumptions.simps) (simp add: Let_def)
      ultimately show ?thesis
        using subA by (auto intro: subset_mset.order_trans)
    next
      case Indeterminate
      with dp show ?thesis
        by (simp add: check_def decision_procedure_def)
    next
      case TriTrue
      note satA = this
      show ?thesis
      proof (cases "check m_solver ?B asm")
        case TriFalse
        then have uB: "m_solver (asm @ ?B) = TriFalse" by (simp add: check_def)
        from "1.IH"(3) [OF nchk big refl refl satA TriFalse dp uB core] lenB
        obtain D where "run_with_assumptions m_solver ?B asm core = Inr (core @ D)"
          and "mset D \<subseteq># mset ?B" and "m_solver (asm @ D) = TriFalse"
          and "\<forall>d\<in>set D. m_solver (asm @ remove1 d D) = TriTrue"
          by auto
        moreover from nchk big satA TriFalse
        have "run_with_assumptions m_solver f asm core =
            run_with_assumptions m_solver ?B asm core"
          by (subst run_with_assumptions.simps) (simp add: Let_def)
        ultimately show ?thesis
          using subB by (auto intro: subset_mset.order_trans)
      next
        case Indeterminate
        with dp show ?thesis
          by (simp add: check_def decision_procedure_def)
      next
        case TriTrue
        note satB = this
        have "set ?A \<union> set ?B = set f"
          by (metis f set_append)
        then have "set ((asm @ ?B) @ ?A) = set (asm @ f)"
          by auto
        from dp_set_cong [OF dp this] unsat
        have u1: "m_solver ((asm @ ?B) @ ?A) = TriFalse" by simp
        from core have core1: "set core \<subseteq> set (asm @ ?B)" by auto
        from "1.IH"(1) [OF nchk big refl refl satA satB dp u1 core1] lenA
        obtain DA where runA: "run_with_assumptions m_solver ?A (asm @ ?B) core = Inr (core @ DA)"
          and subDA: "mset DA \<subseteq># mset ?A"
          and uDA: "m_solver ((asm @ ?B) @ DA) = TriFalse"
          and minDA: "\<forall>d\<in>set DA. m_solver ((asm @ ?B) @ remove1 d DA) = TriTrue"
          by auto
        have "set ((asm @ ?B) @ DA) \<subseteq> set ((asm @ core @ DA) @ ?B)"
          by auto
        from dp_unsat_mono [OF dp this uDA]
        have u2: "m_solver ((asm @ core @ DA) @ ?B) = TriFalse" .
        have core2: "set (core @ DA) \<subseteq> set (asm @ core @ DA)" by auto
        from "1.IH"(2) [OF nchk big refl refl satA satB runA dp u2 core2] lenB
        obtain DB where
          runB: "run_with_assumptions m_solver ?B (asm @ core @ DA) (core @ DA) =
            Inr ((core @ DA) @ DB)"
          and subDB: "mset DB \<subseteq># mset ?B"
          and uDB: "m_solver ((asm @ core @ DA) @ DB) = TriFalse"
          and minDB: "\<forall>d\<in>set DB. m_solver ((asm @ core @ DA) @ remove1 d DB) = TriTrue"
          by auto
        from nchk big satA satB runA runB
        have run: "run_with_assumptions m_solver f asm core = Inr (core @ DA @ DB)"
          by (subst run_with_assumptions.simps) (simp add: Let_def)
        have sub: "mset (DA @ DB) \<subseteq># mset f"
        proof -
          from subDA subDB have "mset DA + mset DB \<subseteq># mset ?A + mset ?B"
            by (rule subset_mset.add_mono)
          also have "mset ?A + mset ?B = mset f"
            by (metis f mset_append)
          finally show ?thesis by simp
        qed
        from core have "set ((asm @ core @ DA) @ DB) = set (asm @ DA @ DB)"
          by auto
        from dp_set_cong [OF dp this] uDB
        have u: "m_solver (asm @ DA @ DB) = TriFalse" by simp
        have min: "m_solver (asm @ remove1 d (DA @ DB)) = TriTrue" if d: "d \<in> set (DA @ DB)" for d
        proof (cases "d \<in> set DA")
          case True
          with minDA have "m_solver ((asm @ ?B) @ remove1 d DA) = TriTrue" by simp
          moreover from subDB have "set DB \<subseteq> set ?B"
            by (rule set_mset_mono [where A = "mset DB" and B = "mset ?B", simplified])
          then have "set (asm @ remove1 d DA @ DB) \<subseteq> set ((asm @ ?B) @ remove1 d DA)"
            by auto
          ultimately have "m_solver (asm @ remove1 d DA @ DB) = TriTrue"
            using dp by (blast intro: dp_sat_mono)
          with True show ?thesis by (simp add: remove1_append)
        next
          case False
          with d have "d \<in> set DB" by simp
          with minDB have "m_solver ((asm @ core @ DA) @ remove1 d DB) = TriTrue" by simp
          moreover have "set (asm @ DA @ remove1 d DB) \<subseteq> set ((asm @ core @ DA) @ remove1 d DB)"
            by auto
          ultimately have "m_solver (asm @ DA @ remove1 d DB) = TriTrue"
            using dp by (blast intro: dp_sat_mono)
          with False show ?thesis by (simp add: remove1_append)
        qed
        from run sub u min show ?thesis by blast
      qed
    qed
  qed
qed


lemma contradiction_solver_decides: "decision_procedure contradiction_solver"
  by (auto simp: decision_procedure_def contradiction_solver_def)

lemma minimal_core_distinct:
  assumes dp: "decision_procedure m_solver" and u: "m_solver C = TriFalse"
    and m: "\<forall>c\<in>set C. m_solver (remove1 c C) = TriTrue"
  shows "distinct C"
proof (rule ccontr)
  assume "\<not> distinct C"
  then obtain xs ys zs y where C: "C = xs @ [y] @ ys @ [y] @ zs"
    using not_distinct_decomp by blast
  have "set (remove1 y C) = set C"
  proof (cases "y \<in> set xs")
    case True
    then show ?thesis unfolding C by (auto simp: remove1_append)
  next
    case False
    then show ?thesis unfolding C by (auto simp: remove1_append)
  qed
  from dp_set_cong [OF dp this] have "m_solver (remove1 y C) = m_solver C" .
  moreover have "y \<in> set C" unfolding C by simp
  ultimately show False using u m by auto
qed

text \<open>
  C3. Core minimality. The solver is a decision procedure, and the conjunction of the
  list \<open>F\<close> is unsatisfiable. Then the naive strategy and the binary-search strategy
  each return a core \<open>C\<close>: its clauses are clauses of \<open>F\<close>, no clause is listed twice,
  its conjunction is unsatisfiable, and for every clause \<open>c\<close> of \<open>C\<close> the conjunction
  of \<open>C\<close> without \<open>c\<close> is satisfiable.
\<close>

theorem muc_minimal:
  assumes dp: "decision_procedure m_solver" and unsat: "m_solver F = TriFalse"
  shows "(\<exists>C. naive_muc m_solver F [] = Inr C \<and> set C \<subseteq> set F \<and> distinct C \<and>
            m_solver C = TriFalse \<and> (\<forall>c\<in>set C. m_solver (removeAll c C) = TriTrue)) \<and>
         (\<exists>C. binary_search_muc m_solver F [] = Inr C \<and> set C \<subseteq> set F \<and> distinct C \<and>
            m_solver C = TriFalse \<and> (\<forall>c\<in>set C. m_solver (removeAll c C) = TriTrue))"
proof
  have all: "m_solver (removeAll c C) = TriTrue" if "m_solver (remove1 c C) = TriTrue" for c C
  proof -
    have "set (removeAll c C) \<subseteq> set (remove1 c C)"
      by (induction C) auto
    from dp_sat_mono [OF dp this that] show ?thesis .
  qed
  from unsat have u: "m_solver ([] @ F) = TriFalse" by simp
  from naive_run_correct [OF dp u] obtain C where C:
    "naive_run m_solver F [] [] = Inr C" "mset C \<subseteq># mset F" "m_solver C = TriFalse"
    "\<forall>c\<in>set C. m_solver (remove1 c C) = TriTrue"
    by auto
  from minimal_core_distinct [OF dp C(3) C(4)] have "distinct C" .
  moreover from \<open>mset C \<subseteq># mset F\<close> have "set C \<subseteq> set F"
    by (rule set_mset_mono [where A = "mset C" and B = "mset F", simplified])
  ultimately
  show "\<exists>C. naive_muc m_solver F [] = Inr C \<and> set C \<subseteq> set F \<and> distinct C \<and>
      m_solver C = TriFalse \<and> (\<forall>c\<in>set C. m_solver (removeAll c C) = TriTrue)"
    using all C by (auto simp: naive_muc_def)
  from dp have "m_solver [] = TriTrue"
    by (simp add: decision_procedure_def)
  with run_with_assumptions_correct [OF dp u, of "[]"] obtain D where D:
    "run_with_assumptions m_solver F [] [] = Inr D" "mset D \<subseteq># mset F" "m_solver D = TriFalse"
    "\<forall>d\<in>set D. m_solver (remove1 d D) = TriTrue"
    by auto
  from minimal_core_distinct [OF dp D(3) D(4)] have "distinct D" .
  moreover from \<open>mset D \<subseteq># mset F\<close> have "set D \<subseteq> set F"
    by (rule set_mset_mono [where A = "mset D" and B = "mset F", simplified])
  ultimately
  show "\<exists>C. binary_search_muc m_solver F [] = Inr C \<and> set C \<subseteq> set F \<and> distinct C \<and>
      m_solver C = TriFalse \<and> (\<forall>c\<in>set C. m_solver (removeAll c C) = TriTrue)"
    using all D by (auto simp: binary_search_muc_def)
qed

lemma naive_example:
  "naive_muc contradiction_solver
     [BoolConst (BasicBlock 0), BoolConst (BasicBlock 1), NEG (BoolConst (BasicBlock 1))] [] =
   Inr [NEG (BoolConst (BasicBlock 1)), BoolConst (BasicBlock 1)]"
  by (simp add: naive_muc_def naive_run_def check_def contradiction_solver_def naive_loop.simps)

lemma binary_example:
  "binary_search_muc contradiction_solver
     [BoolConst (BasicBlock 0), BoolConst (BasicBlock 1), NEG (BoolConst (BasicBlock 1))] [] =
   Inr [NEG (BoolConst (BasicBlock 1)), BoolConst (BasicBlock 1)]"
  by (simp add: binary_search_muc_def run_with_assumptions.simps threshold_def
      naive_run_def check_def contradiction_solver_def naive_loop.simps)

text \<open>
  A list longer than the threshold, so that \<^verbatim>\<open>run_with_assumptions\<close> halves it: the
  two contradicting clauses fall into different halves.
\<close>

lemma binary_example_halving:
  "binary_search_muc contradiction_solver
     (map (\<lambda>k. BoolConst (BasicBlock k)) [0, 1, 2, 3, 4, 5, 6, 7, 8, 9, 10, 11] @
      [NEG (BoolConst (BasicBlock 1)), BoolConst (BasicBlock 20)]) [] =
   Inr [BoolConst (BasicBlock 1), NEG (BoolConst (BasicBlock 1))]"
  by (simp add: binary_search_muc_def run_with_assumptions.simps threshold_def
      naive_run_def check_def contradiction_solver_def naive_loop.simps)

lemma not_subseq: "\<not> subseq [NEG (BoolConst (BasicBlock 1)), BoolConst (BasicBlock 1)]
   [BoolConst (BasicBlock 0), BoolConst (BasicBlock 1), NEG (BoolConst (BasicBlock 1))]"
  by simp


lemma naive_loop_mset:
  "naive_loop m_solver asm out i = Inr C \<Longrightarrow> mset C \<subseteq># mset out"
proof (induction m_solver asm out i rule: naive_loop.induct)
  case (1 m_solver asm out i)
  show ?case
  proof (cases "i < length out")
    case False
    with "1.prems" show ?thesis
      by (subst (asm) naive_loop.simps) simp
  next
    case True
    let ?T = "butlast (out[i := last out])"
    show ?thesis
    proof (cases "check m_solver ?T asm")
      case TriTrue
      with True "1.prems"
      have "naive_loop m_solver asm ((out[i := last out])[i := out ! i]) (i + 1) = Inr C"
        by (subst (asm) naive_loop.simps) (simp add: Let_def)
      from "1.IH"(1) [OF True refl refl TriTrue this] show ?thesis
        by simp
    next
      case TriFalse
      with True "1.prems" have "naive_loop m_solver asm ?T i = Inr C"
        by (subst (asm) naive_loop.simps) (simp add: Let_def)
      from "1.IH"(2) [OF True refl refl TriFalse this] have "mset C \<subseteq># mset ?T" .
      also have "mset ?T \<subseteq># mset out"
        by (simp add: mset_swap_pop [OF True])
      finally show ?thesis .
    next
      case Indeterminate
      with True "1.prems" show ?thesis
        by (subst (asm) naive_loop.simps) (simp add: Let_def)
    qed
  qed
qed

text \<open>
  C7. Order of the core. The core of the naive strategy holds clauses of \<open>F\<close>, none
  more often than \<open>F\<close> does. It need not list them in the order of \<open>F\<close>: a clause
  that is dropped is replaced, at its position, by the last clause of the working list.
  With \<open>F = [b\<^sub>0, b\<^sub>1, \<not> b\<^sub>1]\<close> the core is \<open>[\<not> b\<^sub>1, b\<^sub>1]\<close>.
\<close>

theorem naive_muc_sub_multiset:
  assumes "naive_muc m_solver F [] = Inr C"
  shows "mset C \<subseteq># mset F"
  using assms naive_loop_mset [of m_solver "[]" F 0 C]
  by (simp add: naive_muc_def naive_run_def split: if_splits)

theorem naive_muc_order_counterexample:
  "contradiction_solver
     [BoolConst (BasicBlock 0), BoolConst (BasicBlock 1), NEG (BoolConst (BasicBlock 1))] =
     TriFalse \<and>
   naive_muc contradiction_solver
     [BoolConst (BasicBlock 0), BoolConst (BasicBlock 1), NEG (BoolConst (BasicBlock 1))] [] =
     Inr [NEG (BoolConst (BasicBlock 1)), BoolConst (BasicBlock 1)] \<and>
   \<not> subseq [NEG (BoolConst (BasicBlock 1)), BoolConst (BasicBlock 1)]
     [BoolConst (BasicBlock 0), BoolConst (BasicBlock 1), NEG (BoolConst (BasicBlock 1))]"
  using naive_example by (simp add: contradiction_solver_def)

theorem naive_muc_sub_multiset_witness:
  "naive_muc contradiction_solver
     [BoolConst (BasicBlock 0), BoolConst (BasicBlock 1), NEG (BoolConst (BasicBlock 1))] [] =
     Inr [NEG (BoolConst (BasicBlock 1)), BoolConst (BasicBlock 1)] \<and>
   mset [NEG (BoolConst (BasicBlock 1)), BoolConst (BasicBlock 1)] \<subseteq>#
     mset [BoolConst (BasicBlock 0), BoolConst (BasicBlock 1), NEG (BoolConst (BasicBlock 1))]"
  using naive_muc_sub_multiset [OF naive_example] naive_example by simp

theorem muc_minimal_witness:
  "decision_procedure contradiction_solver \<and>
   contradiction_solver
     [BoolConst (BasicBlock 0), BoolConst (BasicBlock 1), NEG (BoolConst (BasicBlock 1))] =
     TriFalse \<and>
   naive_muc contradiction_solver
     [BoolConst (BasicBlock 0), BoolConst (BasicBlock 1), NEG (BoolConst (BasicBlock 1))] [] =
     Inr [NEG (BoolConst (BasicBlock 1)), BoolConst (BasicBlock 1)] \<and>
   binary_search_muc contradiction_solver
     [BoolConst (BasicBlock 0), BoolConst (BasicBlock 1), NEG (BoolConst (BasicBlock 1))] [] =
     Inr [NEG (BoolConst (BasicBlock 1)), BoolConst (BasicBlock 1)] \<and>
   contradiction_solver [NEG (BoolConst (BasicBlock 1)), BoolConst (BasicBlock 1)] = TriFalse \<and>
   contradiction_solver
     (removeAll (BoolConst (BasicBlock 1))
        [NEG (BoolConst (BasicBlock 1)), BoolConst (BasicBlock 1)]) = TriTrue \<and>
   contradiction_solver
     (removeAll (NEG (BoolConst (BasicBlock 1)))
        [NEG (BoolConst (BasicBlock 1)), BoolConst (BasicBlock 1)]) = TriTrue"
proof -
  have unsat: "contradiction_solver
     [BoolConst (BasicBlock 0), BoolConst (BasicBlock 1), NEG (BoolConst (BasicBlock 1))] =
     TriFalse"
    by (simp add: contradiction_solver_def)
  from muc_minimal [OF contradiction_solver_decides unsat] naive_example binary_example
  have "contradiction_solver [NEG (BoolConst (BasicBlock 1)), BoolConst (BasicBlock 1)] =
      TriFalse \<and>
    (\<forall>c\<in>set [NEG (BoolConst (BasicBlock 1)), BoolConst (BasicBlock 1)].
       contradiction_solver
         (removeAll c [NEG (BoolConst (BasicBlock 1)), BoolConst (BasicBlock 1)]) = TriTrue)"
    by auto
  with contradiction_solver_decides unsat naive_example binary_example show ?thesis
    by simp
qed

end
